theory Spec2Isabelle
  imports Complex_Main
begin

section \<open>Values and errors\<close>

text \<open>
  The pipeline of \<^verbatim>\<open>analysis_tools_cython.pyx\<close> works on arrays of floating-point numbers.
  A finite number is an exact real. The results that IEEE arithmetic gives where exact
  arithmetic has none (a quotient by zero, the mean of an empty array, an overflow) are
  values of their own, since numpy returns them without raising. The two zeros of IEEE
  arithmetic are identified.

  The resampler, the two denoisers and the interpretation are modelled in exact arithmetic:
  rounding is abstracted away, and every equation about them is an equation of exact
  arithmetic. The normaliser and the windowed statistic are modelled with the rounding of
  their binary64 and binary32 variables as well (section \<open>Rounded arithmetic\<close>), since what
  they do on degenerate input, and what the \<^verbatim>\<open>float\<close> accumulator of the windowed statistic
  holds, depends on it.
\<close>

datatype npfloat = Fin real | PInf | NInf | NaN

text \<open>The exceptions the modelled functions can raise.\<close>

datatype error = IndexError | ValueError | OverflowError | ZeroDivisionError

text \<open>Division of numpy floats: no exception, a quotient by zero is infinite or not a number.\<close>

fun np_div :: "npfloat \<Rightarrow> npfloat \<Rightarrow> npfloat" where
  "np_div NaN _ = NaN"
| "np_div _ NaN = NaN"
| "np_div (Fin a) (Fin b) =
     (if b = 0 then (if a = 0 then NaN else if 0 < a then PInf else NInf) else Fin (a / b))"
| "np_div (Fin a) _ = Fin 0"
| "np_div PInf (Fin b) = (if b < 0 then NInf else PInf)"
| "np_div NInf (Fin b) = (if b < 0 then PInf else NInf)"
| "np_div _ _ = NaN"

fun np_sub :: "npfloat \<Rightarrow> npfloat \<Rightarrow> npfloat" where
  "np_sub NaN _ = NaN"
| "np_sub _ NaN = NaN"
| "np_sub (Fin a) (Fin b) = Fin (a - b)"
| "np_sub (Fin a) PInf = NInf"
| "np_sub (Fin a) NInf = PInf"
| "np_sub PInf PInf = NaN"
| "np_sub PInf _ = PInf"
| "np_sub NInf NInf = NaN"
| "np_sub NInf _ = NInf"

fun np_mul :: "npfloat \<Rightarrow> npfloat \<Rightarrow> npfloat" where
  "np_mul NaN _ = NaN"
| "np_mul _ NaN = NaN"
| "np_mul (Fin a) (Fin b) = Fin (a * b)"
| "np_mul (Fin a) PInf = (if a = 0 then NaN else if 0 < a then PInf else NInf)"
| "np_mul (Fin a) NInf = (if a = 0 then NaN else if 0 < a then NInf else PInf)"
| "np_mul PInf (Fin b) = (if b = 0 then NaN else if 0 < b then PInf else NInf)"
| "np_mul NInf (Fin b) = (if b = 0 then NaN else if 0 < b then NInf else PInf)"
| "np_mul PInf PInf = PInf"
| "np_mul PInf NInf = NInf"
| "np_mul NInf PInf = NInf"
| "np_mul NInf NInf = PInf"

fun is_finite :: "npfloat \<Rightarrow> bool" where
  "is_finite (Fin _) = True"
| "is_finite _ = False"

section \<open>Resampler\<close>

text \<open>
  A table is the list of its rows \<open>(time, flux)\<close>.
  \<^verbatim>\<open>calculate_timestep\<close> builds the list of the differences of consecutive times, sorts it
  and reads it at index \<^verbatim>\<open>int(len(dt)/2)\<close>; reading an empty list raises \<^verbatim>\<open>IndexError\<close>.
\<close>

type_synonym table = "(real \<times> real) list"

definition time_diffs :: "table \<Rightarrow> real list" where
  "time_diffs table = map (\<lambda>i. fst (table ! (i + 1)) - fst (table ! i)) [0..<length table - 1]"

definition calculate_timestep :: "table \<Rightarrow> error + real" where
  "calculate_timestep table =
     (let dt = sort (time_diffs table)
      in if length dt div 2 < length dt then Inr (dt ! (length dt div 2)) else Inl IndexError)"

text \<open>
  Python's \<^verbatim>\<open>round\<close> on a float rounds to the nearest integer and a tie to the even one.
\<close>

definition py_round :: "real \<Rightarrow> int" where
  "py_round q =
     (let f = \<lfloor>q\<rfloor>
      in if q - of_int f < 1 / 2 then f
         else if 1 / 2 < q - of_int f then f + 1
         else if even f then f else f + 1)"

text \<open>
  \<^verbatim>\<open>int(round((ti - t[-1])/timestep))\<close>: the quotient is a numpy float, so a zero
  \<^verbatim>\<open>timestep\<close> does not raise in the division; rounding an infinity then raises
  \<^verbatim>\<open>OverflowError\<close> and rounding a NaN raises \<^verbatim>\<open>ValueError\<close>.
\<close>

definition round_steps :: "real \<Rightarrow> real \<Rightarrow> real \<Rightarrow> error + int" where
  "round_steps ti t_last timestep =
     (case np_div (Fin (ti - t_last)) (Fin timestep) of
        Fin q \<Rightarrow> Inr (py_round q)
      | NaN \<Rightarrow> Inl ValueError
      | _ \<Rightarrow> Inl OverflowError)"

text \<open>
  The state of \<^verbatim>\<open>clean_data\<close> is the three lists \<^verbatim>\<open>t\<close>, \<^verbatim>\<open>x\<close>, \<^verbatim>\<open>r\<close>, each grown by
  \<^verbatim>\<open>append\<close>. \<open>fill\<close> is the inner loop \<^verbatim>\<open>for _ in range(steps-1)\<close>, \<open>clean_row\<close> the body
  of \<^verbatim>\<open>for row in table\<close>, \<open>clean_rows\<close> that loop.
\<close>

type_synonym resampled = "real list \<times> real list \<times> int list"

fun fill :: "nat \<Rightarrow> real \<Rightarrow> real \<Rightarrow> resampled \<Rightarrow> resampled" where
  "fill 0 timestep fluxstep s = s"
| "fill (Suc k) timestep fluxstep (t, x, r) =
     fill k timestep fluxstep (t @ [timestep + last t], x @ [fluxstep + last x], r @ [0])"

fun clean_row :: "real \<Rightarrow> resampled \<Rightarrow> real \<times> real \<Rightarrow> error + resampled" where
  "clean_row timestep (t, x, r) (ti, xi) =
     (if length t > 0 then
        (case round_steps ti (last t) timestep of
           Inl e \<Rightarrow> Inl e
         | Inr steps \<Rightarrow>
             (if steps > 1 then
                (let fluxstep = (xi - last x) / of_int steps;
                     (t', x', r') = fill (nat (steps - 1)) timestep fluxstep (t, x, r)
                 in Inr (t' @ [ti], x' @ [xi], r' @ [1]))
              else Inr (t @ [ti], x @ [xi], r @ [1])))
      else Inr (t @ [ti], x @ [xi], r @ [1]))"

fun clean_rows :: "real \<Rightarrow> table \<Rightarrow> resampled \<Rightarrow> error + resampled" where
  "clean_rows timestep [] s = Inr s"
| "clean_rows timestep (row # rows) s =
     (case clean_row timestep s row of
        Inl e \<Rightarrow> Inl e
      | Inr s' \<Rightarrow> clean_rows timestep rows s')"

definition clean_data :: "table \<Rightarrow> error + resampled" where
  "clean_data table =
     (case calculate_timestep table of
        Inl e \<Rightarrow> Inl e
      | Inr timestep \<Rightarrow> clean_rows timestep table ([], [], []))"

text \<open>
  The resampler as the specification words it: between two consecutive samples whose rounded
  step count \<open>steps\<close> exceeds 1 lie \<open>steps - 1\<close> synthesized points, the \<open>k\<close>-th at time
  \<open>t_prev + k * delta\<close> and flux \<open>x_prev + k * (x_next - x_prev) / steps\<close>, flagged 0; every
  original sample is kept, flagged 1.
\<close>

definition gap_points :: "real \<Rightarrow> real \<times> real \<Rightarrow> real \<times> real \<Rightarrow> (real \<times> real \<times> int) list" where
  "gap_points delta prev nxt =
     (let steps = py_round ((fst nxt - fst prev) / delta)
      in if steps > 1
         then map (\<lambda>k. (fst prev + real k * delta,
                         snd prev + real k * (snd nxt - snd prev) / of_int steps, 0))
                  [1..<nat steps]
         else [])"

fun resample_from :: "real \<Rightarrow> real \<times> real \<Rightarrow> table \<Rightarrow> (real \<times> real \<times> int) list" where
  "resample_from delta prev [] = []"
| "resample_from delta prev (row # rows) =
     gap_points delta prev row @ (fst row, snd row, 1) # resample_from delta row rows"

fun resample_spec :: "real \<Rightarrow> table \<Rightarrow> (real \<times> real \<times> int) list" where
  "resample_spec delta [] = []"
| "resample_spec delta (row # rows) = (fst row, snd row, 1) # resample_from delta row rows"

definition columns :: "(real \<times> real \<times> int) list \<Rightarrow> resampled" where
  "columns ps = (map fst ps, map (\<lambda>p. fst (snd p)) ps, map (\<lambda>p. snd (snd p)) ps)"

section \<open>Rounded arithmetic\<close>

text \<open>
  \<open>fp_round p emin emax\<close> rounds a real to the nearest number of the binary floating-point
  format with \<open>p\<close> significant bits and the exponents \<open>emin\<close> to \<open>emax\<close>: ties go to the even
  significand (\<open>py_round\<close> above is rounding to the nearest integer, ties to even), small
  numbers underflow gradually, and a result of magnitude \<open>2 ^ (emax + 1)\<close> or more is an
  infinity. This is the rounding of IEEE 754 arithmetic. A Cython \<^verbatim>\<open>float\<close> is a binary32
  number; a Cython \<^verbatim>\<open>double\<close>, a Python float and a numpy \<^verbatim>\<open>float64\<close> are binary64 numbers.
\<close>

definition fp_round :: "nat \<Rightarrow> int \<Rightarrow> int \<Rightarrow> real \<Rightarrow> npfloat" where
  "fp_round p emin emax x =
     (if x = 0 then Fin 0
      else (let e = max \<lfloor>log 2 \<bar>x\<bar>\<rfloor> emin;
                ulp = power_int 2 (e - int p + 1);
                r = of_int (py_round (x / ulp)) * ulp
            in if power_int 2 (emax + 1) \<le> \<bar>r\<bar> then (if 0 < x then PInf else NInf)
               else Fin r))"

definition c_float :: "real \<Rightarrow> npfloat" where
  "c_float x = fp_round 24 (- 126) 127 x"

definition c_double :: "real \<Rightarrow> npfloat" where
  "c_double x = fp_round 53 (- 1022) 1023 x"

text \<open>
  Storing a value in a \<^verbatim>\<open>float\<close> or a \<^verbatim>\<open>double\<close>, and the result of an operation computed
  in that format: a finite value is rounded, an infinity and NaN stay.
\<close>

fun to_float :: "npfloat \<Rightarrow> npfloat" where
  "to_float (Fin x) = c_float x"
| "to_float v = v"

fun to_double :: "npfloat \<Rightarrow> npfloat" where
  "to_double (Fin x) = c_double x"
| "to_double v = v"



text \<open>Addition of floats.\<close>

fun np_add :: "npfloat \<Rightarrow> npfloat \<Rightarrow> npfloat" where
  "np_add NaN _ = NaN"
| "np_add _ NaN = NaN"
| "np_add (Fin a) (Fin b) = Fin (a + b)"
| "np_add (Fin a) PInf = PInf"
| "np_add (Fin a) NInf = NInf"
| "np_add PInf NInf = NaN"
| "np_add PInf _ = PInf"
| "np_add NInf PInf = NaN"
| "np_add NInf _ = NInf"

text \<open>
  The assignment of an array dimension to a C \<^verbatim>\<open>int\<close>, as in \<^verbatim>\<open>cdef int N = flux.shape[0]\<close>,
  keeps the low 32 bits, read as a signed number.
\<close>

definition c_int :: "int \<Rightarrow> int" where
  "c_int k = (k + 2 ^ 31) mod 2 ^ 32 - 2 ^ 31"

text \<open>
  The reductions \<^verbatim>\<open>sum\<close>, \<^verbatim>\<open>mean\<close> and \<^verbatim>\<open>std\<close> of an array belong to numpy, not to this
  repository, and the rounding of their results follows from numpy's order of evaluation.
  They are parameters of the functions that call them; each gives a binary64 value, an
  infinity or NaN.
\<close>

record ndarray_reductions =
  nd_sum :: "real list \<Rightarrow> npfloat"
  nd_mean :: "real list \<Rightarrow> npfloat"
  nd_std :: "real list \<Rightarrow> npfloat"

section \<open>Normalizer\<close>

text \<open>
  The mean of an array in exact arithmetic; numpy's mean of an empty array is NaN.
\<close>

definition np_mean :: "real list \<Rightarrow> npfloat" where
  "np_mean xs = (if xs = [] then NaN else Fin (sum_list xs / real (length xs)))"

text \<open>
  \<^verbatim>\<open>flux/flux.mean() - np.ones(len(flux))\<close> is numpy arithmetic on binary64 numbers: the
  quotient and the difference are rounded, and no division raises. \<open>ops\<close> gives the
  result of \<^verbatim>\<open>flux.mean()\<close>.
\<close>

definition normalise_flux :: "ndarray_reductions \<Rightarrow> real list \<Rightarrow> npfloat list" where
  "normalise_flux ops flux =
     map (\<lambda>x. to_double (np_sub (to_double (np_div (Fin x) (nd_mean ops flux))) (Fin 1))) flux"

section \<open>Fourier denoiser\<close>

text \<open>
  \<^verbatim>\<open>np.fft.rfft\<close> of a real array of length \<open>N\<close>: the bins \<open>0, \<dots>, N div 2\<close> of the discrete
  Fourier transform, \<open>A[k] = \<Sum>j. x[j] * exp (- 2 pi i j k / N)\<close>. An empty array raises
  \<^verbatim>\<open>ValueError\<close>.
\<close>

definition rfft :: "real list \<Rightarrow> error + complex list" where
  "rfft x =
     (let N = length x
      in if N = 0 then Inl ValueError
         else Inr (map (\<lambda>k. \<Sum>j = 0..<N. of_real (x ! j) * cis (- (2 * pi * real j * real k / real N)))
                       [0..<N div 2 + 1]))"

text \<open>
  \<^verbatim>\<open>np.fft.irfft(a, n)\<close>: the real array of length \<open>n\<close> whose transform has the bins of \<open>a\<close>
  in its lower half and their conjugates in its upper half. Bins that \<open>a\<close> lacks count as
  zero; the imaginary parts of bin 0 and, for even \<open>n\<close>, of bin \<open>n div 2\<close> are ignored.
\<close>

definition bin :: "complex list \<Rightarrow> nat \<Rightarrow> complex" where
  "bin a k = (if k < length a then a ! k else 0)"

definition irfft :: "complex list \<Rightarrow> nat \<Rightarrow> error + real list" where
  "irfft a n =
     (if n = 0 then Inl ValueError
      else Inr (map (\<lambda>j. (Re (bin a 0)
                           + (\<Sum>k = 1..<(n + 1) div 2.
                                2 * Re (bin a k * cis (2 * pi * real j * real k / real n)))
                           + (if even n then Re (bin a (n div 2)) * (- 1) ^ j else 0))
                          / real n)
                    [0..<n]))"

text \<open>
  \<^verbatim>\<open>np.argsort\<close>: the indices of an array in the ascending order of its values. numpy's
  default sort gives no promise about the order of equal values; here they stay in index
  order.
\<close>

definition np_argsort :: "real list \<Rightarrow> nat list" where
  "np_argsort v = sort_key (\<lambda>i. v ! i) [0..<length v]"

text \<open>
  The slice \<^verbatim>\<open>a[0:k]\<close>: the first \<open>k\<close> entries, all of them when \<open>k\<close> exceeds the length,
  and all but the last \<open>-k\<close> for a negative \<open>k\<close>.
\<close>

definition slice_to :: "'a list \<Rightarrow> int \<Rightarrow> 'a list" where
  "slice_to a k = (if 0 \<le> k then take (nat k) a else take (length a - nat (- k)) a)"

text \<open>The loop \<^verbatim>\<open>for i in freq_index: B[i] = A[i]\<close>.\<close>

definition keep_bins :: "complex list \<Rightarrow> nat list \<Rightarrow> complex list \<Rightarrow> complex list" where
  "keep_bins A freq_index B = foldl (\<lambda>B i. B[i := A ! i]) B freq_index"

definition fourier_filter :: "real list \<Rightarrow> int \<Rightarrow> error + real list" where
  "fourier_filter flux freq_count =
     (case rfft flux of
        Inl e \<Rightarrow> Inl e
      | Inr A \<Rightarrow>
          (let A_mag = map cmod A;
               freq_index = slice_to (np_argsort (map uminus A_mag)) freq_count;
               B = keep_bins A freq_index (replicate (length A) 0)
           in case irfft B (length flux) of
                Inl e \<Rightarrow> Inl e
              | Inr fitted_flux \<Rightarrow> Inr (map2 (-) flux fitted_flux)))"

section \<open>Periodogram denoiser\<close>

text \<open>
  \<^verbatim>\<open>a[real == 1]\<close> selects the entries of \<^verbatim>\<open>a\<close> at which the flag array is 1; numpy raises
  \<^verbatim>\<open>IndexError\<close> when the two arrays differ in length.
\<close>

definition mask_select :: "real list \<Rightarrow> int list \<Rightarrow> error + real list" where
  "mask_select a real_flags =
     (if length real_flags = length a
      then Inr (map fst (filter (\<lambda>(v, r). r = 1) (zip a real_flags)))
      else Inl IndexError)"

text \<open>The comparison \<^verbatim>\<open><\<close> of floats: false as soon as one side is NaN.\<close>

fun np_less :: "npfloat \<Rightarrow> npfloat \<Rightarrow> bool" where
  "np_less NaN _ = False"
| "np_less _ NaN = False"
| "np_less (Fin a) (Fin b) = (a < b)"
| "np_less (Fin a) PInf = True"
| "np_less (Fin a) NInf = False"
| "np_less PInf _ = False"
| "np_less NInf NInf = False"
| "np_less NInf _ = True"

text \<open>
  \<^verbatim>\<open>flux -= p\<close> on arrays: elementwise for equal lengths, a one-element \<^verbatim>\<open>p\<close> is broadcast,
  any other shape raises (\<open>None\<close>).
\<close>

definition np_isub :: "real list \<Rightarrow> real list \<Rightarrow> real list option" where
  "np_isub a p =
     (if length p = length a then Some (map2 (-) a p)
      else if length p = 1 then Some (map (\<lambda>v. v - hd p) a)
      else None)"

text \<open>
  The periodic model \<^verbatim>\<open>LombScargleFast\<close> belongs to the library gatspy, not to this
  repository; it is a parameter of the model. \<open>model_fit\<close> takes the configured period range
  and the two arrays handed to \<^verbatim>\<open>model.fit\<close> and gives the fitted model;
  \<open>model_best_period\<close>, \<open>model_score\<close> and \<open>model_predict\<close> are \<^verbatim>\<open>model.best_period\<close>,
  \<^verbatim>\<open>model.score\<close> and \<^verbatim>\<open>model.predict\<close>. Each of them may raise: the result \<open>None\<close>.
\<close>

record 'm periodic_model =
  model_fit :: "npfloat \<times> real \<Rightarrow> real list \<Rightarrow> real list \<Rightarrow> 'm option"
  model_best_period :: "'m \<Rightarrow> real option"
  model_score :: "'m \<Rightarrow> real \<Rightarrow> npfloat option"
  model_predict :: "'m \<Rightarrow> real list \<Rightarrow> real list option"

text \<open>
  The body of the loop after \<^verbatim>\<open>flux_real = flux[real == 1]\<close>: fit, score at the best
  period, \<^verbatim>\<open>break\<close> when the score is below \<^verbatim>\<open>min_score\<close>, else subtract the prediction at
  all of \<^verbatim>\<open>time\<close> from \<^verbatim>\<open>flux\<close>. The result is the updated flux array when the loop goes
  on, and \<open>None\<close> when the loop ends here, by \<^verbatim>\<open>break\<close> or by an exception, which
  \<^verbatim>\<open>except: pass\<close> catches.
\<close>

definition fit_and_subtract ::
  "'m periodic_model \<Rightarrow> npfloat \<times> real \<Rightarrow> real list \<Rightarrow> real list \<Rightarrow> real list \<Rightarrow> real \<Rightarrow>
   real list \<Rightarrow> real list option" where
  "fit_and_subtract M period_range time time_real flux_real min_score flux =
     (case model_fit M period_range time_real flux_real of
        None \<Rightarrow> None
      | Some fitted \<Rightarrow>
          (case model_best_period M fitted of
             None \<Rightarrow> None
           | Some best_period \<Rightarrow>
               (case model_score M fitted best_period of
                  None \<Rightarrow> None
                | Some score \<Rightarrow>
                    if np_less score (Fin min_score) then None
                    else (case model_predict M fitted time of
                            None \<Rightarrow> None
                          | Some prediction \<Rightarrow> np_isub flux prediction))))"

text \<open>
  The loop \<^verbatim>\<open>for _ in range(30)\<close> inside \<^verbatim>\<open>try\<close> \<dots> \<^verbatim>\<open>except: pass\<close>, on the number of
  iterations left. The state is the flux array, which the loop updates in place, and the
  list of the argument pairs of the calls of \<^verbatim>\<open>model.fit\<close> made so far. An exception of
  \<^verbatim>\<open>flux[real == 1]\<close> ends the loop as one of the body does.
\<close>

fun fit_loop ::
  "'m periodic_model \<Rightarrow> npfloat \<times> real \<Rightarrow> real list \<Rightarrow> real list \<Rightarrow> int list \<Rightarrow> real \<Rightarrow>
   nat \<Rightarrow> real list \<times> (real list \<times> real list) list \<Rightarrow>
   real list \<times> (real list \<times> real list) list" where
  "fit_loop M period_range time time_real real_flags min_score 0 (flux, calls) = (flux, calls)"
| "fit_loop M period_range time time_real real_flags min_score (Suc k) (flux, calls) =
     (case mask_select flux real_flags of
        Inl e \<Rightarrow> (flux, calls)
      | Inr flux_real \<Rightarrow>
          (case fit_and_subtract M period_range time time_real flux_real min_score flux of
             None \<Rightarrow> (flux, calls @ [(time_real, flux_real)])
           | Some flux' \<Rightarrow>
               fit_loop M period_range time time_real real_flags min_score k
                 (flux', calls @ [(time_real, flux_real)])))"

text \<open>
  \<^verbatim>\<open>lombscargle_filter\<close>. The statements before \<^verbatim>\<open>try\<close> can raise: \<^verbatim>\<open>time[real == 1]\<close> and
  the reads \<^verbatim>\<open>time[-1]\<close>, \<^verbatim>\<open>time[0]\<close> of an empty array. The quotient \<^verbatim>\<open>N/(2*period)\<close> is a
  numpy division. The function returns nothing; its result here is the final content of
  \<^verbatim>\<open>flux\<close> and the list of the calls of \<^verbatim>\<open>model.fit\<close>.
\<close>

definition lombscargle_filter ::
  "'m periodic_model \<Rightarrow> real list \<Rightarrow> real list \<Rightarrow> int list \<Rightarrow> real \<Rightarrow>
   error + real list \<times> (real list \<times> real list) list" where
  "lombscargle_filter M time flux real_flags min_score =
     (case mask_select time real_flags of
        Inl e \<Rightarrow> Inl e
      | Inr time_real \<Rightarrow>
          (if time = [] then Inl IndexError
           else (let period = last time - hd time;
                     N = length time;
                     nyquist_period = np_div (Fin (real N)) (Fin (2 * period))
                 in Inr (fit_loop M (nyquist_period, period) time time_real real_flags
                           min_score 30 (flux, [])))))"

text \<open>
  The behaviour the denoiser is specified to have, in the words of its specification and
  apart from the code above. The real samples of an array are its entries at the positions
  whose reality flag equals 1.
\<close>

definition real_samples :: "real list \<Rightarrow> int list \<Rightarrow> real list" where
  "real_samples a real_flags = nths a {i. i < length real_flags \<and> real_flags ! i = 1}"

text \<open>
  One iteration turns \<open>flux\<close> into \<open>flux'\<close> when the model fitted to the real samples of
  \<open>time\<close> and \<open>flux\<close> has, at its best period, a score that is not below \<open>min_score\<close>, and
  \<open>flux'\<close> is \<open>flux\<close> minus the prediction of that model at all of \<open>time\<close>, none of these steps
  raising.
\<close>

definition iteration_subtracts ::
  "'m periodic_model \<Rightarrow> npfloat \<times> real \<Rightarrow> real list \<Rightarrow> int list \<Rightarrow> real \<Rightarrow>
   real list \<Rightarrow> real list \<Rightarrow> bool" where
  "iteration_subtracts M period_range time real_flags min_score flux flux' \<longleftrightarrow>
     (\<exists>fitted best_period score prediction.
        model_fit M period_range (real_samples time real_flags) (real_samples flux real_flags)
          = Some fitted \<and>
        model_best_period M fitted = Some best_period \<and>
        model_score M fitted best_period = Some score \<and>
        \<not> np_less score (Fin min_score) \<and>
        model_predict M fitted time = Some prediction \<and>
        np_isub flux prediction = Some flux')"

section \<open>Windowed statistic engine\<close>

text \<open>
  The function \<^verbatim>\<open>test_statistic_array\<close> is modelled twice: first with exact arithmetic, then
  with the rounding of its C variables. In exact arithmetic \<^verbatim>\<open>flux.std()\<close> is the population
  standard deviation, NaN for an empty array.
\<close>

definition np_std :: "real list \<Rightarrow> npfloat" where
  "np_std xs =
     (if xs = [] then NaN
      else (let mean = sum_list xs / real (length xs)
            in Fin (sqrt (sum_list (map (\<lambda>x. (x - mean)\<^sup>2) xs) / real (length xs)))))"

text \<open>
  \<^verbatim>\<open>norm_factor = 1 / ((2*m)**0.5 * sigma)\<close> divides C numbers. The file sets no compiler
  directive, so Cython's default \<^verbatim>\<open>cdivision=False\<close> applies: the quotient raises
  \<^verbatim>\<open>ZeroDivisionError\<close> when the divisor equals zero (a NaN divisor does not).
\<close>

definition norm_factor :: "nat \<Rightarrow> npfloat \<Rightarrow> error + npfloat" where
  "norm_factor m sigma =
     (let d = np_mul (Fin (sqrt (real (2 * m)))) sigma
      in if d = Fin 0 then Inl ZeroDivisionError else Inr (np_div (Fin 1) d))"

text \<open>
  The inner loop \<^verbatim>\<open>for i in range(m+1,N-m)\<close> on the running sum \<^verbatim>\<open>mu\<close> and the row
  \<^verbatim>\<open>t_test[m]\<close>. Its reads \<^verbatim>\<open>flux[i+m-1]\<close> and \<^verbatim>\<open>flux[i-m-1]\<close> are in range for every
  \<open>i\<close> of that range.
\<close>

fun slide :: "real list \<Rightarrow> nat \<Rightarrow> npfloat \<Rightarrow> nat list \<Rightarrow> real \<times> npfloat list \<Rightarrow> real \<times> npfloat list" where
  "slide flux m nf [] (mu, row) = (mu, row)"
| "slide flux m nf (i # is) (mu, row) =
     (let mu' = mu + (flux ! (i + m - 1) - flux ! (i - m - 1))
      in slide flux m nf is (mu', row[i := np_mul (Fin mu') nf]))"

text \<open>
  One pass of the outer loop \<^verbatim>\<open>for m in range(1,n)\<close>. The slice \<^verbatim>\<open>flux[0:(2*m)]\<close> is
  clipped to the array; the store \<^verbatim>\<open>t_test[m][m]\<close> raises \<^verbatim>\<open>IndexError\<close> when \<open>m \<ge> N\<close>.
\<close>

definition half_width_pass ::
  "real list \<Rightarrow> npfloat \<Rightarrow> nat \<Rightarrow> npfloat list list \<Rightarrow> error + npfloat list list" where
  "half_width_pass flux sigma m t_test =
     (case norm_factor m sigma of
        Inl e \<Rightarrow> Inl e
      | Inr nf \<Rightarrow>
          (let N = length flux;
               mu = sum_list (take (2 * m) flux)
           in if m < N then
                (let row = (t_test ! m)[m := np_mul (Fin mu) nf];
                     (mu', row') = slide flux m nf [m + 1..<N - m] (mu, row)
                 in Inr (t_test[m := row']))
              else Inl IndexError))"

fun passes ::
  "real list \<Rightarrow> npfloat \<Rightarrow> nat list \<Rightarrow> npfloat list list \<Rightarrow> error + npfloat list list" where
  "passes flux sigma [] t_test = Inr t_test"
| "passes flux sigma (m # ms) t_test =
     (case half_width_pass flux sigma m t_test of
        Inl e \<Rightarrow> Inl e
      | Inr t_test' \<Rightarrow> passes flux sigma ms t_test')"

text \<open>
  \<^verbatim>\<open>np.zeros([n,N])\<close> raises \<^verbatim>\<open>ValueError\<close> for a negative \<open>n\<close>.
\<close>

definition test_statistic_array :: "real list \<Rightarrow> int \<Rightarrow> error + npfloat list list" where
  "test_statistic_array flux max_half_width =
     (let N = length flux; n = max_half_width; sigma = np_std flux
      in if n < 0 then Inl ValueError
         else passes flux sigma [1..<nat n] (replicate (nat n) (replicate N (Fin 0))))"

text \<open>\<^verbatim>\<open>nonzero\<close> keeps the entries of the flattened matrix that differ from zero.\<close>

definition nonzero :: "npfloat list list \<Rightarrow> npfloat list" where
  "nonzero T = filter (\<lambda>i. i \<noteq> Fin 0) (concat T)"

text \<open>The sum of the window of half-width \<open>m\<close> centred at \<open>i\<close>, \<^verbatim>\<open>flux[(i-m):(i+m)].sum()\<close>.\<close>

definition window_sum :: "real list \<Rightarrow> nat \<Rightarrow> nat \<Rightarrow> real" where
  "window_sum flux m i = (\<Sum>j = i - m..<i + m. flux ! j)"

text \<open>
  The definitions above read the arithmetic of \<^verbatim>\<open>test_statistic_array\<close> as exact. The
  source declares \<^verbatim>\<open>cdef float mu,sigma,norm_factor\<close> and \<^verbatim>\<open>cdef int N\<close>, \<^verbatim>\<open>n\<close>, and takes
  \<^verbatim>\<open>int max_half_width\<close>; the definitions below, with the suffix \<open>_c\<close>, follow these C types.

  An instance of numpy's reductions to evaluate on: each returns its exact result rounded
  once to binary64. numpy returns these values whenever every intermediate sum, product
  and quotient of its own computation is a binary64 number, as on the arrays evaluated
  below.
\<close>

definition correctly_rounded :: ndarray_reductions where
  "correctly_rounded =
     \<lparr>nd_sum = (\<lambda>xs. c_double (sum_list xs)),
      nd_mean = (\<lambda>xs. to_double (np_mean xs)),
      nd_std = (\<lambda>xs. to_double (np_std xs))\<rparr>"

text \<open>
  \<^verbatim>\<open>norm_factor = 1 / ((2*m)**0.5 * sigma)\<close>: the power and the product are computed in
  binary64 (\<^verbatim>\<open>sigma\<close> is a \<^verbatim>\<open>float\<close>), the checked division raises \<^verbatim>\<open>ZeroDivisionError\<close> when
  the computed product equals zero, and the binary64 quotient is stored in a \<^verbatim>\<open>float\<close>. The
  square root is taken to be correctly rounded.
\<close>

definition norm_factor_c :: "nat \<Rightarrow> npfloat \<Rightarrow> error + npfloat" where
  "norm_factor_c m sigma =
     (let d = to_double (np_mul (c_double (sqrt (real (2 * m)))) sigma)
      in if d = Fin 0 then Inl ZeroDivisionError
         else Inr (to_float (to_double (np_div (Fin 1) d))))"

text \<open>
  The inner loop: \<^verbatim>\<open>flux[i+m-1] - flux[i-m-1]\<close> is a binary64 difference,
  \<^verbatim>\<open>mu += \<dots>\<close> adds it to the \<^verbatim>\<open>float\<close> \<^verbatim>\<open>mu\<close> in binary64 and stores the sum in \<^verbatim>\<open>mu\<close>, and
  \<^verbatim>\<open>mu * norm_factor\<close> is a product of two \<^verbatim>\<open>float\<close>s.
\<close>

fun slide_c ::
  "real list \<Rightarrow> nat \<Rightarrow> npfloat \<Rightarrow> nat list \<Rightarrow> npfloat \<times> npfloat list \<Rightarrow> npfloat \<times> npfloat list" where
  "slide_c flux m nf [] (mu, row) = (mu, row)"
| "slide_c flux m nf (i # is) (mu, row) =
     (let mu' = to_float (to_double
                  (np_add mu (c_double (flux ! (i + m - 1) - flux ! (i - m - 1)))))
      in slide_c flux m nf is (mu', row[i := to_float (np_mul mu' nf)]))"

text \<open>
  One pass of the outer loop. The seed \<^verbatim>\<open>mu = flux[0:(2*m)].sum()\<close> stores numpy's binary64
  sum in the \<^verbatim>\<open>float\<close> \<^verbatim>\<open>mu\<close>. \<open>N\<close> is the value of the C variable \<^verbatim>\<open>N\<close>.
\<close>

definition half_width_pass_c ::
  "ndarray_reductions \<Rightarrow> real list \<Rightarrow> nat \<Rightarrow> npfloat \<Rightarrow> nat \<Rightarrow> npfloat list list \<Rightarrow>
   error + npfloat list list" where
  "half_width_pass_c ops flux N sigma m t_test =
     (case norm_factor_c m sigma of
        Inl e \<Rightarrow> Inl e
      | Inr nf \<Rightarrow>
          (let mu = to_float (nd_sum ops (take (2 * m) flux))
           in if m < N then
                (let row = (t_test ! m)[m := to_float (np_mul mu nf)];
                     (mu', row') = slide_c flux m nf [m + 1..<N - m] (mu, row)
                 in Inr (t_test[m := row']))
              else Inl IndexError))"

fun passes_c ::
  "ndarray_reductions \<Rightarrow> real list \<Rightarrow> nat \<Rightarrow> npfloat \<Rightarrow> nat list \<Rightarrow> npfloat list list \<Rightarrow>
   error + npfloat list list" where
  "passes_c ops flux N sigma [] t_test = Inr t_test"
| "passes_c ops flux N sigma (m # ms) t_test =
     (case half_width_pass_c ops flux N sigma m t_test of
        Inl e \<Rightarrow> Inl e
      | Inr t_test' \<Rightarrow> passes_c ops flux N sigma ms t_test')"

text \<open>
  The function. A \<^verbatim>\<open>max_half_width\<close> that does not fit a C \<^verbatim>\<open>int\<close> raises \<^verbatim>\<open>OverflowError\<close>
  when the argument is converted; \<^verbatim>\<open>sigma = flux.std()\<close> stores numpy's binary64 result in
  a \<^verbatim>\<open>float\<close>; \<^verbatim>\<open>np.zeros([n,N])\<close> raises \<^verbatim>\<open>ValueError\<close> for a negative dimension. Running
  out of memory is not modelled, and \<^verbatim>\<open>2*m\<close> is not wrapped: a run that reaches
  \<open>m \<ge> 2 ^ 30\<close> has a matrix of more than \<open>2 ^ 60\<close> entries.
\<close>

definition test_statistic_array_c ::
  "ndarray_reductions \<Rightarrow> real list \<Rightarrow> int \<Rightarrow> error + npfloat list list" where
  "test_statistic_array_c ops flux max_half_width =
     (if max_half_width < - (2 ^ 31) \<or> 2 ^ 31 \<le> max_half_width then Inl OverflowError
      else (let N = c_int (int (length flux)); n = max_half_width;
                sigma = to_float (nd_std ops flux)
            in if n < 0 \<or> N < 0 then Inl ValueError
               else passes_c ops flux (nat N) sigma [1..<nat n]
                      (replicate (nat n) (replicate (nat N) (Fin 0)))))"

section \<open>Distribution fitter: interpretation\<close>

text \<open>
  \<^verbatim>\<open>interpret\<close> reads \<^verbatim>\<open>params[0]\<close> and \<^verbatim>\<open>params[3]\<close> (\<^verbatim>\<open>IndexError\<close> on fewer than four
  entries), unpacks the sequence into six names (\<^verbatim>\<open>ValueError\<close> unless there are exactly six)
  and divides numpy floats. It is named \<open>interpret_params\<close> here.
\<close>

fun interpret_params :: "real list \<Rightarrow> error + (npfloat \<times> npfloat)" where
  "interpret_params [p0, p1, p2, p3, p4, p5] =
     (let (A1, mu1, sigma1, A2, mu2, sigma2) =
            (if p0 > p3 then (p0, p1, p2, p3, p4, p5) else (p3, p4, p5, p0, p1, p2));
          height_ratio = np_div (Fin A2) (Fin A1);
          separation = np_div (Fin (mu2 - mu1)) (Fin sigma1)
      in Inr (height_ratio, separation))"
| "interpret_params params = (if length params < 4 then Inl IndexError else Inl ValueError)"

text \<open>Appending a list of points to the three columns of a resampled series.\<close>

definition extend :: "resampled \<Rightarrow> (real \<times> real \<times> int) list \<Rightarrow> resampled" where
  "extend s ps = (fst s @ map fst ps, fst (snd s) @ map (\<lambda>p. fst (snd p)) ps,
                  snd (snd s) @ map (\<lambda>p. snd (snd p)) ps)"

text \<open>
  The value of the running sum \<^verbatim>\<open>mu\<close> once the pass of half-width \<open>m\<close> has handled the
  centre \<open>i\<close>: the seed \<^verbatim>\<open>flux[0:(2*m)].sum()\<close> and the increments of the centres
  \<open>m + 1, \<dots>, i\<close>.
\<close>

definition running_sum :: "real list \<Rightarrow> nat \<Rightarrow> nat \<Rightarrow> real" where
  "running_sum flux m i =
     sum_list (take (2 * m) flux) + (\<Sum>k = m + 1..<Suc i. flux ! (k + m - 1) - flux ! (k - m - 1))"

text \<open>
  The content of the \<^verbatim>\<open>float\<close> \<^verbatim>\<open>mu\<close> after \<open>k\<close> updates of the inner loop of half-width \<open>m\<close>,
  started with the value \<open>mu\<close> at the centre \<open>a\<close>.
\<close>

fun mu_after :: "real list \<Rightarrow> nat \<Rightarrow> nat \<Rightarrow> npfloat \<Rightarrow> nat \<Rightarrow> npfloat" where
  "mu_after flux m a mu 0 = mu"
| "mu_after flux m a mu (Suc k) =
     to_float (to_double
       (np_add (mu_after flux m a mu k)
          (c_double (flux ! (a + k + m - 1) - flux ! (a + k - m - 1)))))"

text \<open>
  A run of the denoiser of at most \<open>k\<close> iterations from \<open>flux\<close>, as the list \<open>fs\<close> of the flux
  arrays it goes through: each is got from the one before by an iteration that subtracts,
  and a run of fewer than \<open>k\<close> subtractions ends at an array on which no iteration subtracts.
\<close>

definition denoising_run ::
  "'m periodic_model \<Rightarrow> npfloat \<times> real \<Rightarrow> real list \<Rightarrow> int list \<Rightarrow> real \<Rightarrow> nat \<Rightarrow>
   real list \<Rightarrow> real list list \<Rightarrow> bool" where
  "denoising_run M period_range time real_flags min_score k flux fs \<longleftrightarrow>
     fs \<noteq> [] \<and> length fs \<le> k + 1 \<and> hd fs = flux \<and>
     (\<forall>j. Suc j < length fs \<longrightarrow>
        iteration_subtracts M period_range time real_flags min_score (fs ! j) (fs ! Suc j)) \<and>
     (length fs \<le> k \<longrightarrow>
        (\<forall>flux'. \<not> iteration_subtracts M period_range time real_flags min_score (last fs) flux'))"

text \<open>
  A stand-in for the library model, to run the denoiser on: it fits the mean of the samples,
  scores it by its absolute value and predicts it at every time.
\<close>

definition constant_model :: "real periodic_model" where
  "constant_model =
     \<lparr>model_fit = (\<lambda>period_range t y. if y = [] then None else Some (sum_list y / real (length y))),
      model_best_period = (\<lambda>fitted. Some 1),
      model_score = (\<lambda>fitted period. Some (Fin \<bar>fitted\<bar>)),
      model_predict = (\<lambda>fitted t. Some (map (\<lambda>_. fitted) t))\<rparr>"

section \<open>Properties\<close>

lemma length_time_diffs: "length (time_diffs table) = length table - 1"
  by (simp add: time_diffs_def)

subsection \<open>The interpretation\<close>

text \<open>
  C10: when both amplitudes \<open>params[0]\<close> and \<open>params[3]\<close> are nonnegative and one of them is
  positive, \<open>interpret\<close> (\<open>interpret_params\<close>) returns a finite height ratio between 0 and 1.
\<close>

theorem interpret_height_ratio_unit_interval:
  assumes "0 \<le> p0" and "0 \<le> p3" and "0 < p0 \<or> 0 < p3"
  shows "\<exists>h s. interpret_params [p0, p1, p2, p3, p4, p5] = Inr (Fin h, s) \<and> 0 \<le> h \<and> h \<le> 1"
proof (cases "p0 > p3")
  case True
  with assms have "0 < p0" by linarith
  with True assms show ?thesis by simp
next
  case False
  with assms have "0 < p3" by linarith
  with False assms show ?thesis by simp
qed

theorem interpret_height_ratio_unit_interval_witness:
  "\<exists>h s. interpret_params [2, 0, 1, 8, 5, 2] = Inr (Fin h, s) \<and> 0 \<le> h \<and> h \<le> 1"
  using interpret_height_ratio_unit_interval [of 2 8 0 1 5 2] by simp

subsection \<open>The timestep estimate\<close>

text \<open>
  C4 (amended): for a table of at least two rows, \<open>calculate_timestep\<close> returns the element
  of the sorted difference array at index \<open>M div 2\<close>, \<open>M\<close> the number of differences: the
  middle element \<open>(M - 1) div 2\<close> for odd \<open>M\<close>, and the upper-middle element
  \<open>(M - 1) div 2 + 1\<close> for even \<open>M\<close>.
\<close>

theorem calculate_timestep_index:
  assumes "2 \<le> length table"
  shows "calculate_timestep table =
           Inr (sort (time_diffs table) !
                  (if even (length (time_diffs table))
                   then (length (time_diffs table) - 1) div 2 + 1
                   else (length (time_diffs table) - 1) div 2))"
proof -
  let ?M = "length (time_diffs table)"
  have M: "0 < ?M" using assms by (simp add: length_time_diffs)
  have idx: "?M div 2 = (if even ?M then (?M - 1) div 2 + 1 else (?M - 1) div 2)"
    using M by presburger
  have "calculate_timestep table = Inr (sort (time_diffs table) ! (?M div 2))"
    using M by (simp add: calculate_timestep_def Let_def)
  with idx show ?thesis by simp
qed

theorem calculate_timestep_index_witness:
  "2 \<le> length [(0, 5), (1, 5), (3, 5), (6, 5), (10, 5 :: real)] \<and>
   calculate_timestep [(0, 5), (1, 5), (3, 5), (6, 5), (10, 5)] = Inr 3"
  using calculate_timestep_index [of "[(0, 5), (1, 5), (3, 5), (6, 5), (10, 5)]"]
  by (simp add: time_diffs_def upt_rec)

text \<open>
  With the differences 1 and 2 (even length) the result is 2, the upper-middle element; the
  element at the lower-middle index \<open>(M - 1) div 2\<close> is 1.
\<close>

theorem calculate_timestep_lower_middle_counterexample:
  "even (length (sort (time_diffs [(0, 5), (1, 5), (3, 5)]))) \<and>
   calculate_timestep [(0, 5), (1, 5), (3, 5)] = Inr 2 \<and>
   sort (time_diffs [(0, 5), (1, 5), (3, 5)]) !
      ((length (sort (time_diffs [(0, 5), (1, 5), (3, 5)])) - 1) div 2) = 1"
  by (simp add: calculate_timestep_def time_diffs_def upt_rec)

subsection \<open>The resampler\<close>

lemma calculate_timestep_error_iff:
  "calculate_timestep table = Inl e \<longleftrightarrow> e = IndexError \<and> length table < 2"
  by (auto simp: calculate_timestep_def Let_def length_time_diffs)

lemma clean_row_no_IndexError: "clean_row ts s row \<noteq> Inl IndexError"
  by (cases s; cases row) (auto simp: round_steps_def Let_def split: sum.splits npfloat.splits prod.splits if_splits)

lemma clean_rows_no_IndexError: "clean_rows ts rows s \<noteq> Inl IndexError"
  by (induction rows arbitrary: s) (auto simp: clean_row_no_IndexError simp del: clean_row.simps split: sum.splits)

text \<open>
  C7 (amended): the source checks the length of the series nowhere and has no error of its
  own for insufficient data. On a table of fewer than two rows the array \<^verbatim>\<open>dt\<close> is empty and
  the read \<^verbatim>\<open>dt[int(len(dt)/2)]\<close> raises Python's \<open>IndexError\<close>, which \<open>calculate_timestep\<close> and
  \<open>clean_data\<close> pass on to the caller before any output is built; \<open>clean_data\<close> raises
  \<open>IndexError\<close> on no table of two rows or more.
\<close>

theorem clean_data_insufficient_data:
  "(length table < 2 \<longrightarrow>
      calculate_timestep table = Inl IndexError \<and> clean_data table = Inl IndexError) \<and>
   (clean_data table = Inl IndexError \<longrightarrow> length table < 2)"
proof -
  have a: "length table < 2 \<Longrightarrow> calculate_timestep table = Inl IndexError"
    by (simp add: calculate_timestep_error_iff)
  have b: "clean_data table = Inl IndexError \<Longrightarrow> length table < 2"
    using clean_rows_no_IndexError calculate_timestep_error_iff
    by (auto simp: clean_data_def split: sum.splits)
  from a b show ?thesis by (auto simp: clean_data_def)
qed

theorem clean_data_insufficient_data_witness:
  "length ([] :: table) < 2 \<and> calculate_timestep [] = Inl IndexError \<and>
   clean_data [] = Inl IndexError \<and> clean_data [(0, 1)] = Inl IndexError"
  using clean_data_insufficient_data [of "[]"] clean_data_insufficient_data [of "[(0, 1)]"]
  by simp

text \<open>
  The claim is that a series of fewer than two rows is answered with a distinguishable
  insufficient-data error and without a crash. On the empty series and on a series of one
  row the caller of \<open>clean_data\<close> gets the uncaught \<open>IndexError\<close> of a read out of range, the
  exception that \<^verbatim>\<open>interpret\<close> raises for a parameter list that is too short.
\<close>

theorem clean_data_generic_index_error_counterexample:
  "time_diffs [] = [] \<and> calculate_timestep [] = Inl IndexError \<and>
   clean_data [] = Inl IndexError \<and> clean_data [(0, 1)] = Inl IndexError \<and>
   interpret_params [] = Inl IndexError"
  by (simp add: time_diffs_def calculate_timestep_def clean_data_def)

lemma upt_one_Suc_Suc: "[1..<Suc (Suc k)] = 1 # map Suc [1..<Suc k]"
  by (simp add: upt_conv_Cons map_Suc_upt del: upt_Suc)

lemma fill_closed_form:
  "t \<noteq> [] \<Longrightarrow> x \<noteq> [] \<Longrightarrow>
   fill k ts fs (t, x, r) =
     (t @ map (\<lambda>j. last t + real j * ts) [1..<Suc k],
      x @ map (\<lambda>j. last x + real j * fs) [1..<Suc k],
      r @ replicate k 0)"
proof (induction k arbitrary: t x r)
  case 0
  then show ?case by simp
next
  case (Suc k)
  have "fill (Suc k) ts fs (t, x, r) =
          fill k ts fs (t @ [ts + last t], x @ [fs + last x], r @ [0])"
    by simp
  also have "\<dots> = ((t @ [ts + last t]) @ map (\<lambda>j. (ts + last t) + real j * ts) [1..<Suc k],
                    (x @ [fs + last x]) @ map (\<lambda>j. (fs + last x) + real j * fs) [1..<Suc k],
                    (r @ [0]) @ replicate k 0)"
    using Suc.IH [of "t @ [ts + last t]" "x @ [fs + last x]" "r @ [0]"] by simp
  also have "\<dots> = (t @ map (\<lambda>j. last t + real j * ts) [1..<Suc (Suc k)],
                    x @ map (\<lambda>j. last x + real j * fs) [1..<Suc (Suc k)],
                    r @ replicate (Suc k) 0)"
    unfolding upt_one_Suc_Suc
    by (simp add: o_def algebra_simps replicate_append_same del: upt_Suc)
  finally show ?case .
qed

lemma round_steps_nonzero:
  "delta \<noteq> 0 \<Longrightarrow> round_steps ti tp delta = Inr (py_round ((ti - tp) / delta))"
  by (simp add: round_steps_def)

lemma clean_row_closed_form:
  assumes "t \<noteq> []" "x \<noteq> []" "delta \<noteq> 0"
  shows "clean_row delta (t, x, r) row =
           Inr (extend (t, x, r) (gap_points delta (last t, last x) row @ [(fst row, snd row, 1)]))"
proof (cases row)
  case (Pair ti xi)
  let ?steps = "py_round ((ti - last t) / delta)"
  show ?thesis
  proof (cases "?steps > 1")
    case True
    then have n: "Suc (nat (?steps - 1)) = nat ?steps" by simp
    show ?thesis
      using assms True
      by (simp add: Pair round_steps_nonzero fill_closed_form n gap_points_def extend_def
          Let_def o_def map_replicate_const nat_diff_distrib del: upt_Suc)
  next
    case False
    then show ?thesis
      using assms by (simp add: Pair round_steps_nonzero gap_points_def extend_def Let_def)
  qed
qed

lemma extend_nonempty:
  "fst (extend s (ps @ [p])) \<noteq> [] \<and> fst (snd (extend s (ps @ [p]))) \<noteq> []"
  by (simp add: extend_def)

lemma extend_last:
  "last (fst (extend s (ps @ [(a, b, c)]))) = a \<and> last (fst (snd (extend s (ps @ [(a, b, c)])))) = b"
  by (simp add: extend_def)

lemma extend_extend: "extend (extend s ps) qs = extend s (ps @ qs)"
  by (simp add: extend_def)

lemma clean_rows_closed_form:
  assumes "delta \<noteq> 0"
  shows "t \<noteq> [] \<Longrightarrow> x \<noteq> [] \<Longrightarrow>
         clean_rows delta rows (t, x, r) =
           Inr (extend (t, x, r) (resample_from delta (last t, last x) rows))"
proof (induction rows arbitrary: t x r)
  case Nil
  then show ?case by (simp add: extend_def)
next
  case (Cons row rows)
  let ?ps = "gap_points delta (last t, last x) row @ [(fst row, snd row, 1)]"
  obtain t' x' r' where s': "extend (t, x, r) ?ps = (t', x', r')"
    by (cases "extend (t, x, r) ?ps") auto
  have ne: "t' \<noteq> []" "x' \<noteq> []"
    using extend_nonempty [of "(t, x, r)" "gap_points delta (last t, last x) row" "(fst row, snd row, 1)"]
    by (simp_all add: s')
  have la: "last t' = fst row" "last x' = snd row"
    using extend_last [of "(t, x, r)" "gap_points delta (last t, last x) row" "fst row" "snd row" 1]
    by (simp_all add: s')
  have "clean_rows delta (row # rows) (t, x, r) = clean_rows delta rows (t', x', r')"
    using Cons.prems assms by (simp add: clean_row_closed_form s' del: clean_row.simps)
  also have "\<dots> = Inr (extend (t', x', r') (resample_from delta row rows))"
    using Cons.IH [OF ne] by (simp add: la)
  also have "\<dots> = Inr (extend (t, x, r) (?ps @ resample_from delta row rows))"
    by (simp add: s' [symmetric] extend_extend)
  finally show ?case by simp
qed

lemma clean_rows_from_empty:
  assumes "delta \<noteq> 0"
  shows "clean_rows delta table ([], [], []) = Inr (columns (resample_spec delta table))"
proof (cases table)
  case Nil
  then show ?thesis by (simp add: columns_def)
next
  case (Cons row rows)
  obtain ti xi where row: "row = (ti, xi)" by (cases row)
  have "clean_rows delta table ([], [], []) = clean_rows delta rows ([ti], [xi], [1])"
    by (simp add: Cons row)
  also have "\<dots> = Inr (extend ([ti], [xi], [1]) (resample_from delta (ti, xi) rows))"
    using clean_rows_closed_form [OF assms, of "[ti]" "[xi]" rows "[1]"] by simp
  finally show ?thesis by (simp add: Cons row extend_def columns_def)
qed

lemma py_round_of_int: "py_round (of_int k) = k"
  by (simp add: py_round_def)

lemma gap_points_three:
  assumes "delta \<noteq> 0" "fst q - fst p = 3 * delta"
  shows "gap_points delta p q =
           [(fst p + delta, snd p + (snd q - snd p) / 3, 0),
            (fst p + 2 * delta, snd p + 2 * (snd q - snd p) / 3, 0)]"
proof -
  have "(fst q - fst p) / delta = of_int 3" using assms by simp
  then have "py_round ((fst q - fst p) / delta) = 3"
    using py_round_of_int [of 3] by simp
  then show ?thesis
    by (simp add: gap_points_def upt_rec)
qed

text \<open>
  C3: when the estimated timestep \<open>delta\<close> is not zero, \<open>clean_data\<close> returns the columns of
  \<open>resample_spec\<close>: every original sample flagged 1 and, between two consecutive samples with
  \<open>steps = round((t_next - t_prev) / delta) > 1\<close>, exactly \<open>steps - 1\<close> points flagged 0, the
  \<open>k\<close>-th at time \<open>t_prev + k * delta\<close> and flux \<open>x_prev + k * (x_next - x_prev) / steps\<close>.
  A gap of exactly \<open>3 * delta\<close> gets exactly two such points, \<open>delta\<close> apart.
\<close>

theorem clean_data_resamples:
  assumes "calculate_timestep table = Inr delta" and "delta \<noteq> 0"
  shows "clean_data table = Inr (columns (resample_spec delta table)) \<and>
         (\<forall>p q. 1 < py_round ((fst q - fst p) / delta) \<longrightarrow>
            length (gap_points delta p q) = nat (py_round ((fst q - fst p) / delta) - 1)) \<and>
         (\<forall>p q. fst q - fst p = 3 * delta \<longrightarrow>
            gap_points delta p q =
              [(fst p + delta, snd p + (snd q - snd p) / 3, 0),
               (fst p + 2 * delta, snd p + 2 * (snd q - snd p) / 3, 0)])"
proof (intro conjI allI impI)
  show "clean_data table = Inr (columns (resample_spec delta table))"
    using assms by (simp add: clean_data_def clean_rows_from_empty)
next
  fix p q :: "real \<times> real"
  assume "1 < py_round ((fst q - fst p) / delta)"
  then show "length (gap_points delta p q) = nat (py_round ((fst q - fst p) / delta) - 1)"
    by (simp add: gap_points_def Let_def nat_diff_distrib)
next
  fix p q :: "real \<times> real"
  assume "fst q - fst p = 3 * delta"
  then show "gap_points delta p q =
              [(fst p + delta, snd p + (snd q - snd p) / 3, 0),
               (fst p + 2 * delta, snd p + 2 * (snd q - snd p) / 3, 0)]"
    using assms(2) by (rule gap_points_three [rotated])
qed

theorem clean_data_resamples_witness:
  "calculate_timestep [(0, 10), (1, 20), (2, 30), (5, 60), (6, 70)] = Inr 1 \<and>
   clean_data [(0, 10), (1, 20), (2, 30), (5, 60), (6, 70)] =
     Inr ([0, 1, 2, 3, 4, 5, 6], [10, 20, 30, 40, 50, 60, 70], [1, 1, 1, 0, 0, 1, 1])"
proof -
  have ts: "calculate_timestep [(0, 10), (1, 20), (2, 30), (5, 60), (6, 70)] = Inr 1"
    by (simp add: calculate_timestep_def time_diffs_def upt_rec)
  have r1: "py_round 1 = 1" and r3: "py_round 3 = 3"
    using py_round_of_int [of 1] py_round_of_int [of 3] by simp_all
  show ?thesis
    using clean_data_resamples [OF ts] ts
    by (simp add: columns_def gap_points_def r1 r3 upt_rec)
qed

subsection \<open>The windowed statistic in exact arithmetic\<close>

lemma slide_length: "length (snd (slide flux m nf is (mu, row))) = length row"
  by (induction "is" arbitrary: mu row) (simp_all add: Let_def)

lemma slide_nth:
  "snd (slide flux m nf [a..<b] (mu, row)) ! i =
     (if a \<le> i \<and> i < b \<and> i < length row
      then np_mul (Fin (mu + (\<Sum>k = a..<Suc i. flux ! (k + m - 1) - flux ! (k - m - 1)))) nf
      else row ! i)"
proof (induction "b - a" arbitrary: a mu row)
  case 0
  then show ?case by auto
next
  case (Suc d)
  then have ab: "a < b" and d: "d = b - Suc a" by simp_all
  let ?D = "\<lambda>k. flux ! (k + m - 1) - flux ! (k - m - 1)"
  let ?mu = "mu + ?D a"
  let ?row = "row[a := np_mul (Fin ?mu) nf]"
  have step: "slide flux m nf [a..<b] (mu, row) = slide flux m nf [Suc a..<b] (?mu, ?row)"
    using ab by (simp add: upt_conv_Cons Let_def)
  have IH: "snd (slide flux m nf [Suc a..<b] (?mu, ?row)) ! i =
     (if Suc a \<le> i \<and> i < b \<and> i < length ?row
      then np_mul (Fin (?mu + (\<Sum>k = Suc a..<Suc i. ?D k))) nf
      else ?row ! i)"
    using Suc.hyps(1) [OF d] .
  show ?case
  proof (cases "Suc a \<le> i")
    case True
    then have "(\<Sum>k = a..<Suc i. ?D k) = ?D a + (\<Sum>k = Suc a..<Suc i. ?D k)"
      by (simp add: sum.atLeast_Suc_lessThan del: sum.op_ivl_Suc)
    with True show ?thesis
      unfolding step IH by (simp add: add.assoc del: sum.op_ivl_Suc)
  next
    case False
    show ?thesis
    proof (cases "i = a")
      case True
      then show ?thesis unfolding step IH using ab by (auto simp: list_update_beyond)
    next
      case False
      with \<open>\<not> Suc a \<le> i\<close> have "i < a" by simp
      then show ?thesis unfolding step IH by simp
    qed
  qed
qed

lemma half_width_pass_ok:
  assumes nf: "norm_factor m sigma = Inr nf" and mN: "m < length flux"
    and len: "length (T ! m) = length flux"
  shows "\<exists>row'. half_width_pass flux sigma m T = Inr (T[m := row']) \<and>
           length row' = length flux \<and>
           (\<forall>i<length flux. row' ! i =
              (if i = m \<or> (m < i \<and> i < length flux - m)
               then np_mul (Fin (running_sum flux m i)) nf else T ! m ! i))"
proof -
  let ?mu = "sum_list (take (2 * m) flux)"
  let ?row = "(T ! m)[m := np_mul (Fin ?mu) nf]"
  let ?res = "slide flux m nf [m + 1..<length flux - m] (?mu, ?row)"
  have hp: "half_width_pass flux sigma m T = Inr (T[m := snd ?res])"
    using nf mN by (simp add: half_width_pass_def Let_def split: prod.splits)
  have l: "length (snd ?res) = length flux"
    using slide_length [of flux m nf _ ?mu ?row] len by simp
  have e: "snd ?res ! i =
              (if i = m \<or> (m < i \<and> i < length flux - m)
               then np_mul (Fin (running_sum flux m i)) nf else T ! m ! i)"
    if "i < length flux" for i
    using that mN len unfolding slide_nth running_sum_def
    by (auto simp del: sum.op_ivl_Suc)
  from hp l e show ?thesis by blast
qed

lemma half_width_pass_Inr:
  assumes "half_width_pass flux sigma m T = Inr T'"
  shows "m < length flux \<and> (\<exists>nf. norm_factor m sigma = Inr nf)"
  using assms by (auto simp: half_width_pass_def Let_def split: sum.splits if_splits)

lemma passes_Inr:
  "passes flux sigma ms T = Inr T' \<Longrightarrow>
     \<forall>m\<in>set ms. m < length flux \<and> (\<exists>nf. norm_factor m sigma = Inr nf)"
proof (induction ms arbitrary: T)
  case Nil
  then show ?case by simp
next
  case (Cons m ms)
  then obtain T1 where 1: "half_width_pass flux sigma m T = Inr T1"
    and 2: "passes flux sigma ms T1 = Inr T'"
    by (auto split: sum.splits)
  from half_width_pass_Inr [OF 1] Cons.IH [OF 2] show ?case by simp
qed

lemma passes_entries:
  assumes "distinct ms"
    and "\<forall>m\<in>set ms. m < length flux \<and> m < length T \<and> norm_factor m sigma = Inr (nf m)"
    and "\<forall>m<length T. length (T ! m) = length flux"
  shows "\<exists>T'. passes flux sigma ms T = Inr T' \<and> length T' = length T \<and>
           (\<forall>m<length T. length (T' ! m) = length flux \<and>
              (\<forall>i<length flux. T' ! m ! i =
                 (if m \<in> set ms \<and> (i = m \<or> (m < i \<and> i < length flux - m))
                  then np_mul (Fin (running_sum flux m i)) (nf m) else T ! m ! i)))"
  using assms
proof (induction ms arbitrary: T)
  case Nil
  then show ?case by simp
next
  case (Cons a ms)
  from Cons.prems have a: "a < length flux" "a < length T" "norm_factor a sigma = Inr (nf a)"
    and la: "length (T ! a) = length flux" and nin: "a \<notin> set ms" and dist: "distinct ms"
    by auto
  from half_width_pass_ok [OF a(3) a(1) la] obtain row' where
    hp: "half_width_pass flux sigma a T = Inr (T[a := row'])" and
    lr: "length row' = length flux" and
    er: "\<forall>i<length flux. row' ! i =
              (if i = a \<or> (a < i \<and> i < length flux - a)
               then np_mul (Fin (running_sum flux a i)) (nf a) else T ! a ! i)"
    by blast
  let ?T1 = "T[a := row']"
  have p2: "\<forall>m\<in>set ms. m < length flux \<and> m < length ?T1 \<and> norm_factor m sigma = Inr (nf m)"
    using Cons.prems(2) by simp
  have p3: "\<forall>m<length ?T1. length (?T1 ! m) = length flux"
    using Cons.prems(3) lr a(2) by (auto simp: nth_list_update)
  from Cons.IH [OF dist p2 p3] obtain T' where
    ps: "passes flux sigma ms ?T1 = Inr T'" and lT: "length T' = length ?T1" and
    eT: "\<forall>m<length ?T1. length (T' ! m) = length flux \<and>
              (\<forall>i<length flux. T' ! m ! i =
                 (if m \<in> set ms \<and> (i = m \<or> (m < i \<and> i < length flux - m))
                  then np_mul (Fin (running_sum flux m i)) (nf m) else ?T1 ! m ! i))"
    by blast
  have "passes flux sigma (a # ms) T = Inr T'" using hp ps by simp
  moreover have "length T' = length T" using lT by simp
  moreover have "length (T' ! m) = length flux \<and>
              (\<forall>i<length flux. T' ! m ! i =
                 (if m \<in> set (a # ms) \<and> (i = m \<or> (m < i \<and> i < length flux - m))
                  then np_mul (Fin (running_sum flux m i)) (nf m) else T ! m ! i))"
    if m: "m < length T" for m
  proof (intro conjI allI impI)
    from eT m show "length (T' ! m) = length flux" by simp
  next
    fix i assume i: "i < length flux"
    from eT m i have e1: "T' ! m ! i =
        (if m \<in> set ms \<and> (i = m \<or> (m < i \<and> i < length flux - m))
         then np_mul (Fin (running_sum flux m i)) (nf m) else ?T1 ! m ! i)"
      by simp
    have e2: "?T1 ! m = (if m = a then row' else T ! m)"
      using a(2) m by (simp add: nth_list_update)
    show "T' ! m ! i =
        (if m \<in> set (a # ms) \<and> (i = m \<or> (m < i \<and> i < length flux - m))
         then np_mul (Fin (running_sum flux m i)) (nf m) else T ! m ! i)"
    proof (cases "m = a")
      case True
      then have "m \<notin> set ms" using nin by simp
      then show ?thesis unfolding e1 e2 using er i True by simp
    next
      case False
      then show ?thesis unfolding e1 e2 by auto
    qed
  qed
  ultimately show ?case by blast
qed

lemma sum_list_take_nth:
  "k \<le> length xs \<Longrightarrow> sum_list (take k xs) = (\<Sum>j = 0..<k. xs ! j)"
  by (simp add: sum_list_sum_nth)

lemma running_sum_Suc:
  "m \<le> i \<Longrightarrow> running_sum flux m (Suc i) = running_sum flux m i + (flux ! (i + m) - flux ! (i - m))"
  by (simp add: running_sum_def)

lemma window_sum_Suc:
  assumes "m \<le> i"
  shows "window_sum flux m (Suc i) = window_sum flux m i + (flux ! (i + m) - flux ! (i - m))"
proof -
  have "\<not> i + m < i - m" by arith
  then have a: "(\<Sum>j = i - m..<Suc (i + m). flux ! j) = window_sum flux m i + flux ! (i + m)"
    by (simp add: window_sum_def)
  have b: "(\<Sum>j = i - m..<Suc (i + m). flux ! j) =
             flux ! (i - m) + (\<Sum>j = Suc (i - m)..<Suc (i + m). flux ! j)"
    by (simp add: sum.atLeast_Suc_lessThan del: sum.op_ivl_Suc)
  have c: "Suc i - m = Suc (i - m)" using assms by simp
  have "window_sum flux m (Suc i) = (\<Sum>j = Suc (i - m)..<Suc (i + m). flux ! j)"
    by (simp add: window_sum_def c del: sum.op_ivl_Suc)
  with a b show ?thesis by simp
qed

lemma running_sum_window:
  assumes "2 * m \<le> length flux"
  shows "running_sum flux m (m + d) = window_sum flux m (m + d)"
proof (induction d)
  case 0
  show ?case using assms by (simp add: running_sum_def window_sum_def sum_list_take_nth mult_2)
next
  case (Suc d)
  have "running_sum flux m (Suc (m + d)) = window_sum flux m (Suc (m + d))"
    using Suc by (simp add: running_sum_Suc window_sum_Suc)
  then show ?case by simp
qed

lemma test_statistic_array_entries:
  assumes "test_statistic_array flux n = Inr T"
  shows "length T = nat n \<and>
         (\<forall>m<nat n. length (T ! m) = length flux \<and>
            (\<forall>i<length flux. T ! m ! i =
               (if 1 \<le> m \<and> (i = m \<or> (m < i \<and> i < length flux - m))
                then np_mul (Fin (running_sum flux m i)) (projr (norm_factor m (np_std flux)))
                else Fin 0)))"
proof -
  let ?T0 = "replicate (nat n) (replicate (length flux) (Fin 0 :: npfloat))"
  let ?nf = "\<lambda>m. projr (norm_factor m (np_std flux))"
  from assms have ps: "passes flux (np_std flux) [1..<nat n] ?T0 = Inr T"
    by (simp add: test_statistic_array_def Let_def split: if_splits)
  have 2: "\<forall>m\<in>set [1..<nat n]. m < length flux \<and> m < length ?T0 \<and>
             norm_factor m (np_std flux) = Inr (?nf m)"
    using passes_Inr [OF ps] by auto
  have 3: "\<forall>m<length ?T0. length (?T0 ! m) = length flux" by simp
  from passes_entries [OF _ 2 3] ps have
    "length T = length ?T0 \<and>
       (\<forall>m<length ?T0. length (T ! m) = length flux \<and>
          (\<forall>i<length flux. T ! m ! i =
             (if m \<in> set [1..<nat n] \<and> (i = m \<or> (m < i \<and> i < length flux - m))
              then np_mul (Fin (running_sum flux m i)) (?nf m) else ?T0 ! m ! i)))"
    by auto
  then show ?thesis by auto
qed

lemma norm_factor_nonzero:
  "1 \<le> m \<Longrightarrow> sigma \<noteq> 0 \<Longrightarrow>
   norm_factor m (Fin sigma) = Inr (Fin (1 / (sqrt (real (2 * m)) * sigma)))"
  by (simp add: norm_factor_def Let_def)

lemma test_statistic_array_returns:
  assumes "np_std flux = Fin sigma" and "sigma \<noteq> 0" and "0 \<le> n" and "n \<le> int (length flux)"
  shows "\<exists>T. test_statistic_array flux n = Inr T"
proof -
  let ?T0 = "replicate (nat n) (replicate (length flux) (Fin 0 :: npfloat))"
  let ?nf = "\<lambda>m. Fin (1 / (sqrt (real (2 * m)) * sigma))"
  have 2: "\<forall>m\<in>set [1..<nat n]. m < length flux \<and> m < length ?T0 \<and>
             norm_factor m (np_std flux) = Inr (?nf m)"
    using assms by (auto simp: norm_factor_nonzero)
  have 3: "\<forall>m<length ?T0. length (?T0 ! m) = length flux" by simp
  from passes_entries [OF _ 2 3] obtain T where
    "passes flux (np_std flux) [1..<nat n] ?T0 = Inr T"
    by auto
  then show ?thesis using assms(3) by (simp add: test_statistic_array_def Let_def)
qed

text \<open>
  In exact arithmetic the seeded, incrementally updated running sum is the window sum: for
  a standard deviation \<open>sigma\<close> that is not zero, the entry \<open>[m][i]\<close> of a returned matrix,
  for \<open>m\<close> in \<open>[1, max_half_width)\<close> and \<open>i\<close> in \<open>[m, N - m)\<close>, is
  \<open>flux[i-m] + \<dots> + flux[i+m-1]\<close> times \<open>1 / (sqrt (2 m) * sigma)\<close>.
\<close>

lemma test_statistic_array_exact_window_sum:
  assumes "np_std flux = Fin sigma" and "sigma \<noteq> 0"
    and "test_statistic_array flux n = Inr T" and "1 \<le> m" and "int m < n"
    and "m \<le> i" and "i < length flux - m"
  shows "T ! m ! i = Fin (window_sum flux m i * (1 / (sqrt (real (2 * m)) * sigma)))"
proof -
  from assms have m: "m < nat n" and i: "i < length flux" and fit: "2 * m \<le> length flux"
    by linarith+
  from assms(6) obtain d where d: "i = m + d" using le_Suc_ex by blast
  have "T ! m ! i = np_mul (Fin (running_sum flux m i)) (projr (norm_factor m (np_std flux)))"
    using test_statistic_array_entries [OF assms(3)] assms(4-7) m i by auto
  also have "running_sum flux m i = window_sum flux m i"
    unfolding d using fit by (rule running_sum_window)
  also have "projr (norm_factor m (np_std flux)) = Fin (1 / (sqrt (real (2 * m)) * sigma))"
    using assms by (simp add: norm_factor_nonzero)
  finally show ?thesis by simp
qed

lemma np_std_1313: "np_std [1, 3, 1, 3] = Fin 1"
  by (simp add: np_std_def Let_def power2_eq_square)

text \<open>
  Apart from the seed entries \<open>[m][m]\<close>, a returned matrix is zero outside the region: in
  row 0, left of the diagonal, and from column \<open>N - m\<close> on. \<open>nonzero\<close> drops every zero.
\<close>

lemma test_statistic_array_zero_elsewhere:
  assumes "test_statistic_array flux n = Inr T" and "m < nat n" and "i < length flux"
    and "m = 0 \<or> i < m \<or> (m < i \<and> length flux - m \<le> i)"
  shows "T ! m ! i = Fin 0"
  using test_statistic_array_entries [OF assms(1)] assms(2-4) by auto

lemma nonzero_excludes_zero: "Fin 0 \<notin> set (nonzero T)"
  by (simp add: nonzero_def)

text \<open>
  C5: the claim is that every entry \<open>[m][i]\<close> with \<open>i\<close> outside \<open>[m, N - m)\<close> is zero. The store
  \<^verbatim>\<open>t_test[m][m] = mu * norm_factor\<close> is not guarded: for \<open>flux = [1, 3, 1, 3]\<close> and
  \<open>max_half_width = 4\<close> the pass \<open>m = 3\<close> sums the clipped slice \<^verbatim>\<open>flux[0:6]\<close> and writes the
  nonzero value \<open>8 / sqrt 6\<close> at \<open>[3][3]\<close>, although \<open>[3, N - 3)\<close> is empty.
\<close>

theorem test_statistic_array_seed_written_outside_region:
  "\<exists>T. test_statistic_array [1, 3, 1, 3] 4 = Inr T \<and>
       T ! 3 ! 3 = Fin (8 * (1 / sqrt 6)) \<and> T ! 3 ! 3 \<noteq> Fin 0 \<and>
       \<not> (3 < length [1, 3, 1, 3 :: real] - 3)"
proof -
  obtain T where T: "test_statistic_array [1, 3, 1, 3] 4 = Inr T"
    using test_statistic_array_returns [OF np_std_1313, of 4] by auto
  have "T ! 3 ! 3 = np_mul (Fin (running_sum [1, 3, 1, 3] 3 3))
                      (projr (norm_factor 3 (np_std [1, 3, 1, 3])))"
    using test_statistic_array_entries [OF T] by simp
  also have "\<dots> = Fin (8 * (1 / sqrt 6))"
    by (simp add: np_std_1313 norm_factor_nonzero running_sum_def)
  finally have "T ! 3 ! 3 = Fin (8 * (1 / sqrt 6))" .
  with T show ?thesis by auto
qed

subsection \<open>Rounding to binary32 and binary64\<close>

lemma py_round_lower: "of_int a \<le> q \<Longrightarrow> a \<le> py_round q"
proof -
  assume "of_int a \<le> q"
  then have "a \<le> \<lfloor>q\<rfloor>" by (simp add: le_floor_iff)
  then show ?thesis by (simp add: py_round_def Let_def)
qed

lemma py_round_upper: "q \<le> of_int b \<Longrightarrow> py_round q \<le> b"
proof -
  assume q: "q \<le> of_int b"
  then have fb: "\<lfloor>q\<rfloor> \<le> b" by (simp add: floor_le_iff)
  show ?thesis
  proof (cases "q - of_int \<lfloor>q\<rfloor> < 1 / 2")
    case True
    with fb show ?thesis by (simp add: py_round_def Let_def)
  next
    case False
    then have "of_int \<lfloor>q\<rfloor> < q" by simp
    with q have "of_int \<lfloor>q\<rfloor> < (of_int b :: real)" by linarith
    then have "\<lfloor>q\<rfloor> < b" by simp
    then show ?thesis by (simp add: py_round_def Let_def)
  qed
qed


lemma binade_of_floor_log2:
  fixes x :: real
  assumes "0 < x"
  shows "power_int 2 \<lfloor>log 2 x\<rfloor> \<le> x \<and> x < power_int 2 (\<lfloor>log 2 x\<rfloor> + 1)"
proof -
  have "(2::real) powr real_of_int \<lfloor>log 2 x\<rfloor> \<le> x \<and> x < 2 powr real_of_int (\<lfloor>log 2 x\<rfloor> + 1)"
    using floor_log_eq_powr_iff [of x 2 "\<lfloor>log 2 x\<rfloor>"] assms by simp
  moreover have "(2::real) powr real_of_int \<lfloor>log 2 x\<rfloor> = power_int 2 \<lfloor>log 2 x\<rfloor>"
       "(2::real) powr real_of_int (\<lfloor>log 2 x\<rfloor> + 1) = power_int 2 (\<lfloor>log 2 x\<rfloor> + 1)"
    using powr_real_of_int' [of "2::real" "\<lfloor>log 2 x\<rfloor>"]
          powr_real_of_int' [of "2::real" "\<lfloor>log 2 x\<rfloor> + 1"]
    by simp_all
  ultimately show ?thesis by simp
qed

lemma power_int_2_less_imp:
  assumes "power_int (2::real) a < power_int 2 b"
  shows "a < b"
proof (rule ccontr)
  assume "\<not> a < b"
  then have "b \<le> a" by simp
  then have "power_int (2::real) b \<le> power_int 2 a"
    by (intro power_int_increasing) simp_all
  with assms show False by simp
qed


lemma fp_round_exact:
  assumes x: "x = of_int k * power_int 2 j" and k: "\<bar>k\<bar> < 2 ^ p"
    and j: "emin - int p + 1 \<le> j" and fin: "\<bar>x\<bar> < power_int 2 (emax + 1)"
  shows "fp_round p emin emax x = Fin x"
proof (cases "x = 0")
  case True
  then show ?thesis by (simp add: fp_round_def)
next
  case False
  define L where "L = \<lfloor>log 2 \<bar>x\<bar>\<rfloor>"
  define e where "e = max L emin"
  define ulp where "ulp = power_int (2::real) (e - int p + 1)"
  have u0: "ulp \<noteq> 0" by (simp add: ulp_def)
  have pos: "0 < \<bar>x\<bar>" using False by simp
  have L: "power_int 2 L \<le> \<bar>x\<bar>" using binade_of_floor_log2 [OF pos] by (simp add: L_def)
  have "\<bar>x\<bar> = of_int \<bar>k\<bar> * power_int 2 j" by (simp add: x abs_mult)
  also have "\<dots> < 2 ^ p * power_int 2 j"
  proof -
    have "(of_int \<bar>k\<bar> :: real) < of_int (2 ^ p)" using k by (subst of_int_less_iff)
    then show ?thesis by simp
  qed
  also have "\<dots> = power_int 2 (int p + j)" by (simp add: power_int_add)
  finally have "power_int (2::real) L < power_int 2 (int p + j)" using L by simp
  then have "L < int p + j" by (rule power_int_2_less_imp)
  with j have ej: "e - int p + 1 \<le> j" by (simp add: e_def)
  define d where "d = nat (j - (e - int p + 1))"
  have jd: "j = (e - int p + 1) + int d" using ej by (simp add: d_def)
  have "power_int (2::real) j = power_int 2 (e - int p + 1) * power_int 2 (int d)"
    by (subst jd) (simp only: power_int_add [of "2::real", simplified])
  then have pj: "power_int (2::real) j = ulp * 2 ^ d" by (simp add: ulp_def)
  have "x / ulp = of_int (k * 2 ^ d)" unfolding x pj using u0 by simp
  then have "py_round (x / ulp) = k * 2 ^ d" by (simp only: py_round_of_int)
  then have r: "of_int (py_round (x / ulp)) * ulp = x"
    unfolding x pj by simp
  have "fp_round p emin emax x =
          (if power_int 2 (emax + 1) \<le> \<bar>of_int (py_round (x / ulp)) * ulp\<bar>
           then (if 0 < x then PInf else NInf) else Fin (of_int (py_round (x / ulp)) * ulp))"
    using False unfolding fp_round_def Let_def ulp_def e_def L_def by simp
  then show ?thesis
    using fin unfolding r by simp
qed

lemma fp_round_bounds:
  assumes p: "0 < p" and k: "emin \<le> k" and l: "l \<le> emax"
    and lo: "power_int 2 k \<le> x" and hi: "x < power_int 2 l"
  shows "\<exists>y. fp_round p emin emax x = Fin y \<and> power_int 2 k \<le> y \<and> y \<le> power_int 2 l"
proof -
  let ?L = "\<lfloor>log 2 x\<rfloor>"
  let ?ulp = "power_int (2::real) (?L - int p + 1)"
  have x0: "0 < x" using lo zero_less_power_int [of "2::real" k] by linarith
  from binade_of_floor_log2 [OF x0] have L1: "power_int 2 ?L \<le> x" and L2: "x < power_int 2 (?L + 1)"
    by simp_all
  have "power_int (2::real) k < power_int 2 (?L + 1)" using lo L2 by linarith
  then have kL: "k \<le> ?L" using power_int_2_less_imp by fastforce
  have "power_int (2::real) ?L < power_int 2 l" using L1 hi by linarith
  then have Ll: "?L + 1 \<le> l" using power_int_2_less_imp by fastforce
  have u0: "0 < ?ulp" by simp
  have a: "power_int (2::real) ?L = of_int (2 ^ (p - 1)) * ?ulp"
  proof -
    have "?L = int (p - 1) + (?L - int p + 1)" using p by simp
    then have "power_int (2::real) ?L = power_int 2 (int (p - 1)) * ?ulp"
      by (metis power_int_add zero_neq_numeral)
    then show ?thesis by simp
  qed
  have b: "power_int (2::real) (?L + 1) = of_int (2 ^ p) * ?ulp"
  proof -
    have "?L + 1 = int p + (?L - int p + 1)" by simp
    then have "power_int (2::real) (?L + 1) = power_int 2 (int p) * ?ulp"
      by (metis power_int_add zero_neq_numeral)
    then show ?thesis by simp
  qed
  have q1: "of_int (2 ^ (p - 1)) \<le> x / ?ulp"
    using L1 u0 unfolding a by (simp add: pos_le_divide_eq)
  have q2: "x / ?ulp \<le> of_int (2 ^ p)"
    using L2 u0 unfolding b by (simp add: pos_divide_le_eq)
  let ?r = "of_int (py_round (x / ?ulp)) * ?ulp"
  have r1: "power_int 2 ?L \<le> ?r"
    unfolding a using py_round_lower [OF q1] u0 by (simp add: mult_right_mono)
  have r2: "?r \<le> power_int 2 (?L + 1)"
    unfolding b using py_round_upper [OF q2] u0 by (simp add: mult_right_mono)
  have lo': "power_int 2 k \<le> ?r"
    using r1 power_int_increasing [OF kL, of "2::real"] by simp
  have hi': "?r \<le> power_int 2 l"
    using r2 power_int_increasing [OF Ll, of "2::real"] by simp
  have "power_int (2::real) l < power_int 2 (emax + 1)"
    using l by (intro power_int_strict_increasing) simp_all
  with hi' lo' have fin: "\<not> power_int 2 (emax + 1) \<le> \<bar>?r\<bar>"
    using zero_less_power_int [of "2::real" k] by linarith
  have e: "max ?L emin = ?L" using kL k by simp
  have "fp_round p emin emax x = Fin ?r"
    using x0 fin unfolding fp_round_def Let_def by (simp add: e)
  with lo' hi' show ?thesis by blast
qed



lemma fp_round_min:
  assumes "fp_round p emin emax x = Fin s" and "s \<noteq> 0"
  shows "power_int 2 (emin - int p + 1) \<le> \<bar>s\<bar>"
proof -
  have x0: "x \<noteq> 0" using assms by (auto simp: fp_round_def)
  define L where "L = \<lfloor>log 2 \<bar>x\<bar>\<rfloor>"
  define e where "e = max L emin"
  define ulp where "ulp = power_int (2::real) (e - int p + 1)"
  define K where "K = py_round (x / ulp)"
  have u0: "0 < ulp" by (simp add: ulp_def)
  have eq: "fp_round p emin emax x =
          (if power_int 2 (emax + 1) \<le> \<bar>of_int K * ulp\<bar>
           then (if 0 < x then PInf else NInf) else Fin (of_int K * ulp))"
    using x0 unfolding fp_round_def Let_def ulp_def e_def L_def K_def by simp
  from assms(1) have s: "s = of_int K * ulp" unfolding eq by (auto split: if_splits)
  with assms(2) have "K \<noteq> 0" by auto
  then have "1 \<le> \<bar>K\<bar>" by simp
  then have "(1::real) \<le> \<bar>of_int K\<bar>" by (metis of_int_1 of_int_abs of_int_le_iff)
  then have "1 * ulp \<le> \<bar>of_int K\<bar> * ulp" using u0 by (intro mult_right_mono) simp_all
  then have "ulp \<le> \<bar>s\<bar>" unfolding s abs_mult using u0 by simp
  moreover have "power_int (2::real) (emin - int p + 1) \<le> ulp"
    unfolding ulp_def by (intro power_int_increasing) (simp_all add: e_def)
  ultimately show ?thesis by linarith
qed

lemma fp_round_nonzero:
  assumes p: "0 < p" and x: "power_int 2 emin \<le> \<bar>x\<bar>"
  shows "fp_round p emin emax x \<noteq> Fin 0"
proof -
  have pos: "0 < \<bar>x\<bar>" using x zero_less_power_int [of "2::real" emin] by linarith
  then have x0: "x \<noteq> 0" by simp
  define L where "L = \<lfloor>log 2 \<bar>x\<bar>\<rfloor>"
  define e where "e = max L emin"
  define ulp where "ulp = power_int (2::real) (e - int p + 1)"
  define K where "K = py_round (x / ulp)"
  have u0: "0 < ulp" by (simp add: ulp_def)
  from binade_of_floor_log2 [OF pos] have L1: "power_int 2 L \<le> \<bar>x\<bar>"
    and L2: "\<bar>x\<bar> < power_int 2 (L + 1)" by (simp_all add: L_def)
  have "power_int (2::real) emin < power_int 2 (L + 1)" using x L2 by linarith
  then have "emin \<le> L" using power_int_2_less_imp by fastforce
  then have eL: "e = L" by (simp add: e_def)
  have "ulp \<le> power_int 2 L"
    unfolding ulp_def eL using p by (intro power_int_increasing) simp_all
  with L1 have ux: "ulp \<le> \<bar>x\<bar>" by linarith
  have K0: "K \<noteq> 0"
  proof (cases "0 < x")
    case True
    then have "of_int 1 \<le> x / ulp" using ux u0 by (simp add: pos_le_divide_eq)
    from py_round_lower [OF this] show ?thesis by (simp add: K_def)
  next
    case False
    then have "x / ulp \<le> of_int (- 1)" using ux u0 x0 by (simp add: pos_divide_le_eq)
    from py_round_upper [OF this] show ?thesis by (simp add: K_def)
  qed
  have eq: "fp_round p emin emax x =
          (if power_int 2 (emax + 1) \<le> \<bar>of_int K * ulp\<bar>
           then (if 0 < x then PInf else NInf) else Fin (of_int K * ulp))"
    using x0 unfolding fp_round_def Let_def ulp_def e_def L_def K_def by simp
  have "of_int K * ulp \<noteq> 0" using K0 u0 by simp
  then show ?thesis unfolding eq by simp
qed

lemma to_float_min:
  "to_float v = Fin s \<Longrightarrow> s \<noteq> 0 \<Longrightarrow> power_int 2 (- 149) \<le> \<bar>s\<bar>"
  using fp_round_min [of 24 "- 126" 127 _ s]
  by (cases v) (simp_all add: c_float_def)

lemma c_double_of_int: "\<bar>k\<bar> < 2 ^ 53 \<Longrightarrow> c_double (of_int k) = Fin (of_int k)"
proof -
  assume k: "\<bar>k\<bar> < 2 ^ 53"
  have x: "(of_int k :: real) = of_int k * power_int 2 0" by simp
  have "\<bar>of_int k :: real\<bar> < of_int (2 ^ 53)"
    using k by (metis of_int_abs of_int_less_iff)
  also have "\<dots> \<le> power_int 2 (1023 + 1)" by simp
  finally have b: "\<bar>of_int k :: real\<bar> < power_int 2 (1023 + 1)" .
  show ?thesis unfolding c_double_def
    by (rule fp_round_exact [OF x k _ b]) simp
qed

lemma c_float_of_int: "\<bar>k\<bar> < 2 ^ 24 \<Longrightarrow> c_float (of_int k) = Fin (of_int k)"
proof -
  assume k: "\<bar>k\<bar> < 2 ^ 24"
  have x: "(of_int k :: real) = of_int k * power_int 2 0" by simp
  have "\<bar>of_int k :: real\<bar> < of_int (2 ^ 24)"
    using k by (metis of_int_abs of_int_less_iff)
  also have "\<dots> \<le> power_int 2 (127 + 1)" by simp
  finally have b: "\<bar>of_int k :: real\<bar> < power_int 2 (127 + 1)" .
  show ?thesis unfolding c_float_def
    by (rule fp_round_exact [OF x k _ b]) simp
qed


lemma inverse_binade:
  assumes "power_int 2 a \<le> (d::real)" and "d \<le> power_int 2 b"
  shows "power_int 2 (- b) \<le> 1 / d \<and> 1 / d \<le> power_int 2 (- a)"
proof -
  have d0: "0 < d" using assms(1) zero_less_power_int [of "2::real" a] by linarith
  have "1 / power_int 2 b \<le> 1 / d"
    using assms(2) d0 by (intro divide_left_mono) simp_all
  moreover have "1 / d \<le> 1 / power_int 2 a"
    using assms(1) d0 by (intro divide_left_mono) simp_all
  ultimately show ?thesis by (simp add: power_int_minus inverse_eq_divide)
qed

lemma c_double_sqrt_finite:
  assumes "1 \<le> m" and "m < 2 ^ 31"
  shows "\<exists>y. c_double (sqrt (real (2 * m))) = Fin y \<and> 1 \<le> y \<and> y \<le> power_int 2 32"
proof -
  have lo: "power_int 2 0 \<le> sqrt (real (2 * m))" using assms(1) by simp
  have "real (2 * m) < (2 ^ 32)\<^sup>2" using assms(2) by simp
  then have "sqrt (real (2 * m)) < 2 ^ 32" by (intro real_less_lsqrt) simp_all
  then have hi: "sqrt (real (2 * m)) < power_int 2 32" by simp
  from fp_round_bounds [of 53 "- 1022" 0 32 1023, OF _ _ _ lo hi]
  show ?thesis by (auto simp: c_double_def)
qed

lemma c_double_0: "c_double 0 = Fin 0"
  by (simp add: c_double_def fp_round_def)

lemma c_float_0: "c_float 0 = Fin 0"
  by (simp add: c_float_def fp_round_def)

lemma c_double_1: "c_double 1 = Fin 1"
  using c_double_of_int [of 1] by simp

lemma c_float_1: "c_float 1 = Fin 1"
  using c_float_of_int [of 1] by simp



lemma norm_factor_c_returns:
  assumes m: "1 \<le> m" "m < 2 ^ 31" and s: "to_float v \<noteq> Fin 0"
  shows "\<exists>nf. norm_factor_c m (to_float v) = Inr nf"
proof -
  from c_double_sqrt_finite [OF m] obtain y where
    y: "c_double (sqrt (real (2 * m))) = Fin y" and y1: "1 \<le> y" by blast
  have "to_double (np_mul (Fin y) (to_float v)) \<noteq> Fin 0"
  proof (cases "to_float v")
    case (Fin s)
    with s have s0: "s \<noteq> 0" by simp
    from to_float_min [OF Fin s0] have "power_int 2 (- 149) \<le> \<bar>s\<bar>" .
    moreover have "\<bar>s\<bar> \<le> \<bar>y * s\<bar>" using y1 by (simp add: abs_mult mult_le_cancel_right1)
    moreover have "power_int (2::real) (- 1022) \<le> power_int 2 (- 149)"
      by (intro power_int_increasing) simp_all
    ultimately have "power_int 2 (- 1022) \<le> \<bar>y * s\<bar>" by linarith
    from fp_round_nonzero [of 53, OF _ this] show ?thesis
      by (simp add: Fin c_double_def)
  next
    case PInf
    then show ?thesis using y1 by simp
  next
    case NInf
    then show ?thesis using y1 by simp
  next
    case NaN
    then show ?thesis by simp
  qed
  then show ?thesis using y by (simp add: norm_factor_c_def Let_def)
qed

lemma norm_factor_c_zero:
  assumes "1 \<le> m" "m < 2 ^ 31"
  shows "norm_factor_c m (Fin 0) = Inl ZeroDivisionError"
proof -
  from c_double_sqrt_finite [OF assms] obtain y where
    y: "c_double (sqrt (real (2 * m))) = Fin y" by blast
  have "c_double 0 = Fin 0" by (simp add: c_double_def fp_round_def)
  then show ?thesis using y by (simp add: norm_factor_c_def Let_def)
qed

lemma norm_factor_c_finite:
  assumes m: "1 \<le> m" "m < 2 ^ 31" and z: "power_int 2 (- 60) \<le> z" "z \<le> power_int 2 60"
  shows "\<exists>q. norm_factor_c m (Fin z) = Inr (Fin q) \<and> power_int 2 (- 93) \<le> q"
proof -
  from c_double_sqrt_finite [OF m] obtain y where
    y: "c_double (sqrt (real (2 * m))) = Fin y" and y1: "1 \<le> y" and y2: "y \<le> power_int 2 32"
    by blast
  have z0: "0 < z" using z(1) zero_less_power_int [of "2::real" "- 60"] by linarith
  have lo: "power_int 2 (- 60) \<le> y * z"
  proof -
    have "z \<le> y * z" using y1 z0 by (simp add: mult_le_cancel_right1)
    with z(1) show ?thesis by linarith
  qed
  have "y * z \<le> power_int 2 32 * power_int 2 60"
    using y1 y2 z0 z(2) by (intro mult_mono) simp_all
  also have "\<dots> = power_int 2 92" by (simp add: power_int_add [symmetric])
  also have "\<dots> < power_int 2 93" by (intro power_int_strict_increasing) simp_all
  finally have hi: "y * z < power_int 2 93" .
  from fp_round_bounds [of 53 "- 1022" "- 60" 93 1023, OF _ _ _ lo hi] obtain d where
    d: "c_double (y * z) = Fin d" and d1: "power_int 2 (- 60) \<le> d" and d2: "d \<le> power_int 2 93"
    by (auto simp: c_double_def)
  have d0: "d \<noteq> 0" using d1 zero_less_power_int [of "2::real" "- 60"] by linarith
  from inverse_binade [OF d1 d2] have i1: "power_int 2 (- 93) \<le> 1 / d"
    and "1 / d \<le> power_int 2 60" by simp_all
  moreover have "power_int (2::real) 60 < power_int 2 61"
    by (intro power_int_strict_increasing) simp_all
  ultimately have i2: "1 / d < power_int 2 61" by linarith
  from fp_round_bounds [of 53 "- 1022" "- 93" 61 1023, OF _ _ _ i1 i2] obtain q1 where
    q1: "c_double (1 / d) = Fin q1" and q11: "power_int 2 (- 93) \<le> q1"
    and q12: "q1 \<le> power_int 2 61"
    by (auto simp: c_double_def)
  have "power_int (2::real) 61 < power_int 2 62"
    by (intro power_int_strict_increasing) simp_all
  with q12 have q13: "q1 < power_int 2 62" by linarith
  from fp_round_bounds [of 24 "- 126" "- 93" 62 127, OF _ _ _ q11 q13] obtain q where
    q: "c_float q1 = Fin q" and q2: "power_int 2 (- 93) \<le> q"
    by (auto simp: c_float_def)
  have "norm_factor_c m (Fin z) = Inr (Fin q)"
    using y d d0 q1 q by (simp add: norm_factor_c_def Let_def)
  with q2 show ?thesis by blast
qed


subsection \<open>The windowed statistic with its C variables\<close>

lemma c_int_id: "0 \<le> k \<Longrightarrow> k < 2 ^ 31 \<Longrightarrow> c_int k = k"
  by (simp add: c_int_def)

lemma slide_c_length: "length (snd (slide_c flux m nf is (mu, row))) = length row"
  by (induction "is" arbitrary: mu row) (simp_all add: Let_def)

lemma mu_after_shift:
  "mu_after flux m a mu (Suc k) = mu_after flux m (Suc a) (mu_after flux m a mu (Suc 0)) k"
  by (induction k) simp_all

lemma slide_c_nth:
  "snd (slide_c flux m nf [a..<b] (mu, row)) ! i =
     (if a \<le> i \<and> i < b \<and> i < length row
      then to_float (np_mul (mu_after flux m a mu (Suc (i - a))) nf)
      else row ! i)"
proof (induction "b - a" arbitrary: a mu row)
  case 0
  then show ?case by auto
next
  case (Suc d)
  then have ab: "a < b" and d: "d = b - Suc a" by simp_all
  define mu' where "mu' = mu_after flux m a mu (Suc 0)"
  define row' where "row' = row[a := to_float (np_mul mu' nf)]"
  have step: "slide_c flux m nf [a..<b] (mu, row) = slide_c flux m nf [Suc a..<b] (mu', row')"
    using ab by (simp add: upt_conv_Cons Let_def mu'_def row'_def)
  have IH: "snd (slide_c flux m nf [Suc a..<b] (mu', row')) ! i =
     (if Suc a \<le> i \<and> i < b \<and> i < length row'
      then to_float (np_mul (mu_after flux m (Suc a) mu' (Suc (i - Suc a))) nf)
      else row' ! i)"
    using Suc.hyps(1) [OF d] .
  have l: "length row' = length row" by (simp add: row'_def)
  show ?case
  proof (cases "Suc a \<le> i")
    case True
    then have s: "Suc (i - a) = Suc (Suc (i - Suc a))" by simp
    have eq: "mu_after flux m a mu (Suc (i - a)) = mu_after flux m (Suc a) mu' (Suc (i - Suc a))"
      unfolding s mu'_def by (rule mu_after_shift)
    have ri: "row' ! i = row ! i" using True by (simp add: row'_def)
    from True have ai: "a \<le> i" by simp
    show ?thesis unfolding step IH l eq ri using True ai by (simp del: mu_after.simps)
  next
    case False
    show ?thesis
    proof (cases "i = a")
      case True
      then show ?thesis unfolding step IH l using ab
        by (auto simp: row'_def mu'_def list_update_beyond)
    next
      case False
      with \<open>\<not> Suc a \<le> i\<close> have "i < a" by simp
      then show ?thesis unfolding step IH l by (simp add: row'_def)
    qed
  qed
qed

lemma half_width_pass_c_ok:
  assumes nf: "norm_factor_c m sigma = Inr nf" and mN: "m < N"
    and len: "length (T ! m) = N"
  shows "\<exists>row'. half_width_pass_c ops flux N sigma m T = Inr (T[m := row']) \<and>
           length row' = N \<and>
           (\<forall>i<N. row' ! i =
              (if i = m \<or> (m < i \<and> i < N - m)
               then to_float (np_mul
                      (mu_after flux m (Suc m) (to_float (nd_sum ops (take (2 * m) flux))) (i - m)) nf)
               else T ! m ! i))"
proof -
  define mu where "mu = to_float (nd_sum ops (take (2 * m) flux))"
  define row where "row = (T ! m)[m := to_float (np_mul mu nf)]"
  define res where "res = slide_c flux m nf [m + 1..<N - m] (mu, row)"
  have hp: "half_width_pass_c ops flux N sigma m T = Inr (T[m := snd res])"
    using nf mN
    by (simp add: half_width_pass_c_def Let_def res_def row_def mu_def split: prod.splits)
  have lr: "length row = N" using len by (simp add: row_def)
  have l: "length (snd res) = N"
    unfolding res_def using slide_c_length [of flux m nf _ mu row] lr by simp
  have e: "snd res ! i =
              (if i = m \<or> (m < i \<and> i < N - m)
               then to_float (np_mul (mu_after flux m (Suc m) mu (i - m)) nf) else T ! m ! i)"
    if i: "i < N" for i
  proof (cases "m < i \<and> i < N - m")
    case True
    then have "Suc (i - (m + 1)) = i - m" by arith
    with True show ?thesis
      unfolding res_def slide_c_nth lr using i by (simp del: mu_after.simps)
  next
    case False
    then show ?thesis
      unfolding res_def slide_c_nth lr using i mN len by (auto simp: row_def)
  qed
  from hp l e show ?thesis unfolding mu_def by blast
qed

lemma half_width_pass_c_Inr:
  assumes "half_width_pass_c ops flux N sigma m T = Inr T'"
  shows "m < N \<and> (\<exists>nf. norm_factor_c m sigma = Inr nf)"
  using assms by (auto simp: half_width_pass_c_def Let_def split: sum.splits if_splits)

lemma passes_c_Inr:
  "passes_c ops flux N sigma ms T = Inr T' \<Longrightarrow>
     \<forall>m\<in>set ms. m < N \<and> (\<exists>nf. norm_factor_c m sigma = Inr nf)"
proof (induction ms arbitrary: T)
  case Nil
  then show ?case by simp
next
  case (Cons m ms)
  then obtain T1 where 1: "half_width_pass_c ops flux N sigma m T = Inr T1"
    and 2: "passes_c ops flux N sigma ms T1 = Inr T'"
    by (auto split: sum.splits)
  from half_width_pass_c_Inr [OF 1] Cons.IH [OF 2] show ?case by simp
qed

lemma passes_c_entries:
  assumes "distinct ms"
    and "\<forall>m\<in>set ms. m < N \<and> m < length T \<and> norm_factor_c m sigma = Inr (nf m)"
    and "\<forall>m<length T. length (T ! m) = N"
  shows "\<exists>T'. passes_c ops flux N sigma ms T = Inr T' \<and> length T' = length T \<and>
           (\<forall>m<length T. length (T' ! m) = N \<and>
              (\<forall>i<N. T' ! m ! i =
                 (if m \<in> set ms \<and> (i = m \<or> (m < i \<and> i < N - m))
                  then to_float (np_mul
                         (mu_after flux m (Suc m) (to_float (nd_sum ops (take (2 * m) flux))) (i - m))
                         (nf m))
                  else T ! m ! i)))"
  using assms
proof (induction ms arbitrary: T)
  case Nil
  then show ?case by simp
next
  case (Cons a ms)
  let ?v = "\<lambda>m i. to_float (np_mul
               (mu_after flux m (Suc m) (to_float (nd_sum ops (take (2 * m) flux))) (i - m)) (nf m))"
  from Cons.prems have a: "a < N" "a < length T" "norm_factor_c a sigma = Inr (nf a)"
    and la: "length (T ! a) = N" and nin: "a \<notin> set ms" and dist: "distinct ms"
    by auto
  from half_width_pass_c_ok [OF a(3) a(1) la, of ops flux] obtain row' where
    hp: "half_width_pass_c ops flux N sigma a T = Inr (T[a := row'])" and
    lr: "length row' = N" and
    er: "\<forall>i<N. row' ! i = (if i = a \<or> (a < i \<and> i < N - a) then ?v a i else T ! a ! i)"
    by blast
  let ?T1 = "T[a := row']"
  have p2: "\<forall>m\<in>set ms. m < N \<and> m < length ?T1 \<and> norm_factor_c m sigma = Inr (nf m)"
    using Cons.prems(2) by simp
  have p3: "\<forall>m<length ?T1. length (?T1 ! m) = N"
    using Cons.prems(3) lr a(2) by (auto simp: nth_list_update)
  from Cons.IH [OF dist p2 p3] obtain T' where
    ps: "passes_c ops flux N sigma ms ?T1 = Inr T'" and lT: "length T' = length ?T1" and
    eT: "\<forall>m<length ?T1. length (T' ! m) = N \<and>
              (\<forall>i<N. T' ! m ! i =
                 (if m \<in> set ms \<and> (i = m \<or> (m < i \<and> i < N - m))
                  then ?v m i else ?T1 ! m ! i))"
    by blast
  have "passes_c ops flux N sigma (a # ms) T = Inr T'" using hp ps by simp
  moreover have "length T' = length T" using lT by simp
  moreover have "length (T' ! m) = N \<and>
              (\<forall>i<N. T' ! m ! i =
                 (if m \<in> set (a # ms) \<and> (i = m \<or> (m < i \<and> i < N - m))
                  then ?v m i else T ! m ! i))"
    if m: "m < length T" for m
  proof (intro conjI allI impI)
    from eT m show "length (T' ! m) = N" by simp
  next
    fix i assume i: "i < N"
    from eT m i have e1: "T' ! m ! i =
        (if m \<in> set ms \<and> (i = m \<or> (m < i \<and> i < N - m)) then ?v m i else ?T1 ! m ! i)"
      by simp
    have e2: "?T1 ! m = (if m = a then row' else T ! m)"
      using a(2) m by (simp add: nth_list_update)
    show "T' ! m ! i =
        (if m \<in> set (a # ms) \<and> (i = m \<or> (m < i \<and> i < N - m)) then ?v m i else T ! m ! i)"
    proof (cases "m = a")
      case True
      then have "m \<notin> set ms" using nin by simp
      then show ?thesis unfolding e1 e2 using er i True by simp
    next
      case False
      then show ?thesis unfolding e1 e2 by auto
    qed
  qed
  ultimately show ?case by blast
qed

lemma test_statistic_array_c_passes:
  assumes "length flux < 2 ^ 31"
  shows "test_statistic_array_c ops flux n =
           (if n < - (2 ^ 31) \<or> 2 ^ 31 \<le> n then Inl OverflowError
            else if n < 0 then Inl ValueError
            else passes_c ops flux (length flux) (to_float (nd_std ops flux)) [1..<nat n]
                   (replicate (nat n) (replicate (length flux) (Fin 0))))"
proof -
  have "c_int (int (length flux)) = int (length flux)"
    using assms by (intro c_int_id) simp_all
  then show ?thesis by (simp add: test_statistic_array_c_def Let_def)
qed

lemma test_statistic_array_c_entries:
  assumes "test_statistic_array_c ops flux n = Inr T" and "length flux < 2 ^ 31"
  shows "length T = nat n \<and>
         (\<forall>m<nat n. length (T ! m) = length flux \<and>
            (\<forall>i<length flux. T ! m ! i =
               (if 1 \<le> m \<and> (i = m \<or> (m < i \<and> i < length flux - m))
                then to_float (np_mul
                       (mu_after flux m (Suc m) (to_float (nd_sum ops (take (2 * m) flux))) (i - m))
                       (projr (norm_factor_c m (to_float (nd_std ops flux)))))
                else Fin 0)))"
proof -
  let ?T0 = "replicate (nat n) (replicate (length flux) (Fin 0 :: npfloat))"
  let ?sigma = "to_float (nd_std ops flux)"
  let ?nf = "\<lambda>m. projr (norm_factor_c m ?sigma)"
  from assms have ps: "passes_c ops flux (length flux) ?sigma [1..<nat n] ?T0 = Inr T"
    by (simp add: test_statistic_array_c_passes split: if_splits)
  have 2: "\<forall>m\<in>set [1..<nat n]. m < length flux \<and> m < length ?T0 \<and>
             norm_factor_c m ?sigma = Inr (?nf m)"
    using passes_c_Inr [OF ps] by auto
  have 3: "\<forall>m<length ?T0. length (?T0 ! m) = length flux" by simp
  from passes_c_entries [OF _ 2 3, of ops flux] ps have
    "length T = length ?T0 \<and>
       (\<forall>m<length ?T0. length (T ! m) = length flux \<and>
          (\<forall>i<length flux. T ! m ! i =
             (if m \<in> set [1..<nat n] \<and> (i = m \<or> (m < i \<and> i < length flux - m))
              then to_float (np_mul
                     (mu_after flux m (Suc m) (to_float (nd_sum ops (take (2 * m) flux))) (i - m))
                     (?nf m))
              else ?T0 ! m ! i)))"
    by auto
  then show ?thesis by auto
qed

lemma test_statistic_array_c_returns:
  assumes "length flux < 2 ^ 31" and "0 \<le> n" and "n \<le> int (length flux)"
    and "to_float (nd_std ops flux) \<noteq> Fin 0"
  shows "\<exists>T. test_statistic_array_c ops flux n = Inr T"
proof -
  let ?T0 = "replicate (nat n) (replicate (length flux) (Fin 0 :: npfloat))"
  let ?sigma = "to_float (nd_std ops flux)"
  let ?nf = "\<lambda>m. projr (norm_factor_c m ?sigma)"
  have "norm_factor_c m ?sigma = Inr (?nf m)" if "1 \<le> m" "m < nat n" for m
  proof -
    have "m < 2 ^ 31" using that assms(1,3) by linarith
    from norm_factor_c_returns [OF that(1) this assms(4)] show ?thesis by auto
  qed
  then have 2: "\<forall>m\<in>set [1..<nat n]. m < length flux \<and> m < length ?T0 \<and>
             norm_factor_c m ?sigma = Inr (?nf m)"
    using assms(2,3) by auto
  have 3: "\<forall>m<length ?T0. length (?T0 ! m) = length flux" by simp
  from passes_c_entries [OF _ 2 3, of ops flux] obtain T where
    "passes_c ops flux (length flux) ?sigma [1..<nat n] ?T0 = Inr T"
    by auto
  moreover have "int (length flux) < int (2 ^ 31)" using assms(1) by (simp only: of_nat_less_iff)
  then have "n < 2 ^ 31" using assms(3) by simp
  ultimately show ?thesis using assms(1,2) by (simp add: test_statistic_array_c_passes)
qed


lemma sigma_1313: "to_float (nd_std correctly_rounded [1, 3, 1, 3]) = Fin 1"
  by (simp add: correctly_rounded_def np_std_1313 c_double_1 c_float_1)





text \<open>
  The seed entry of an empty region is written with the C arithmetic as well: for
  \<open>flux = [1, 3, 1, 3]\<close> and \<open>max_half_width = 4\<close> the entry \<open>[3][3]\<close> is not zero.
\<close>

lemma test_statistic_array_c_seed_outside_region:
  "\<exists>T. test_statistic_array_c correctly_rounded [1, 3, 1, 3] 4 = Inr T \<and> T ! 3 ! 3 \<noteq> Fin 0"
proof -
  let ?F = "[1, 3, 1, 3 :: real]"
  have len: "length ?F < 2 ^ 31" by simp
  from test_statistic_array_c_returns [OF len, of 4 correctly_rounded] obtain T where
    T: "test_statistic_array_c correctly_rounded ?F 4 = Inr T"
    by (auto simp: sigma_1313)
  from norm_factor_c_finite [of 3 1] obtain q where
    q: "norm_factor_c 3 (Fin 1) = Inr (Fin q)" and q1: "power_int 2 (- 93) \<le> q"
    by auto
  have seed: "to_float (nd_sum correctly_rounded (take (2 * 3) ?F)) = Fin 8"
    using c_double_of_int [of 8] c_float_of_int [of 8] by (simp add: correctly_rounded_def)
  have "T ! 3 ! 3 = to_float (np_mul (mu_after ?F 3 (Suc 3)
            (to_float (nd_sum correctly_rounded (take (2 * 3) ?F))) (3 - 3))
            (projr (norm_factor_c 3 (to_float (nd_std correctly_rounded ?F)))))"
    using test_statistic_array_c_entries [OF T len, THEN conjunct2, rule_format, of 3, THEN conjunct2, rule_format, of 3]
    by (simp del: mu_after.simps)
  then have e: "T ! 3 ! 3 = c_float (8 * q)"
    unfolding seed sigma_1313 q by simp
  have "power_int (2::real) (- 126) \<le> power_int 2 (- 93)"
    by (intro power_int_increasing) simp_all
  moreover have "q \<le> \<bar>8 * q\<bar>" using q1 zero_less_power_int [of "2::real" "- 93"] by simp
  ultimately have "power_int 2 (- 126) \<le> \<bar>8 * q\<bar>" using q1 by linarith
  from fp_round_nonzero [of 24, OF _ this] have "c_float (8 * q) \<noteq> Fin 0"
    by (simp add: c_float_def)
  with T e show ?thesis by auto
qed

subsection \<open>Degenerate flux arrays\<close>

lemma test_statistic_array_c_zero_sigma:
  assumes "to_float (nd_std ops flux) = Fin 0" and "2 \<le> n" and "n < 2 ^ 31"
    and "length flux < 2 ^ 31"
  shows "test_statistic_array_c ops flux n = Inl ZeroDivisionError"
proof -
  have u: "[Suc 0..<nat n] = Suc 0 # [2..<nat n]"
    using assms(2) by (simp add: upt_conv_Cons numeral_2_eq_2)
  have "norm_factor_c (Suc 0) (Fin 0) = Inl ZeroDivisionError"
    by (rule norm_factor_c_zero) simp_all
  then have "half_width_pass_c ops flux N (Fin 0) (Suc 0) T = Inl ZeroDivisionError" for N T
    by (simp add: half_width_pass_c_def)
  then show ?thesis
    using assms by (simp add: test_statistic_array_c_passes u)
qed

lemma test_statistic_array_c_no_pass:
  assumes "0 \<le> n" and "n \<le> 1" and "length flux < 2 ^ 31"
  shows "test_statistic_array_c ops flux n =
           Inr (replicate (nat n) (replicate (length flux) (Fin 0)))"
proof -
  have "[Suc 0..<nat n] = []" using assms(2) by simp
  then show ?thesis using assms by (simp add: test_statistic_array_c_passes)
qed

text \<open>
  C6 (amended): neither function signals a degenerate-numeric error of its own.
  \<open>normalise_flux\<close> raises nothing: when the mean that numpy computes is zero it returns an
  array of the same length in which no entry is finite (each is an infinity or NaN).
  \<open>test_statistic_array\<close>, taken with its C types (\<open>test_statistic_array_c\<close>), on a flux array
  of fewer than \<open>2 ^ 31\<close> values: when the standard deviation, as stored in the \<^verbatim>\<open>float\<close>
  \<^verbatim>\<open>sigma\<close>, is zero and \<open>2 \<le> max_half_width < 2 ^ 31\<close>, the division for \<^verbatim>\<open>norm_factor\<close>
  divides by zero and \<open>ZeroDivisionError\<close> is raised, so that no matrix is returned; for \<open>max_half_width\<close> 0 or 1 nothing is divided and the zero matrix
  is returned, whatever the flux array is; when the stored standard deviation is not zero no
  error is raised for \<open>0 \<le> max_half_width \<le> N\<close> and a matrix is returned. The last case
  includes a constant array whose computed standard deviation is a rounding residue.
\<close>

theorem degenerate_flux_behaviour:
  "(nd_mean ops flux = Fin 0 \<longrightarrow>
      length (normalise_flux ops flux) = length flux \<and>
      (\<forall>v\<in>set (normalise_flux ops flux). \<not> is_finite v)) \<and>
   (length flux < 2 ^ 31 \<and> to_float (nd_std ops flux) = Fin 0 \<and> 2 \<le> n \<and> n < 2 ^ 31 \<longrightarrow>
      test_statistic_array_c ops flux n = Inl ZeroDivisionError) \<and>
   (length flux < 2 ^ 31 \<and> 0 \<le> n \<and> n \<le> 1 \<longrightarrow>
      test_statistic_array_c ops flux n =
        Inr (replicate (nat n) (replicate (length flux) (Fin 0)))) \<and>
   (length flux < 2 ^ 31 \<and> to_float (nd_std ops flux) \<noteq> Fin 0 \<and> 0 \<le> n \<and>
    n \<le> int (length flux) \<longrightarrow>
      (\<exists>T. test_statistic_array_c ops flux n = Inr T))"
proof (intro conjI impI)
  assume "nd_mean ops flux = Fin 0"
  then show "\<forall>v\<in>set (normalise_flux ops flux). \<not> is_finite v"
    by (auto simp: normalise_flux_def)
next
  show "length (normalise_flux ops flux) = length flux"
    by (simp add: normalise_flux_def)
next
  assume "length flux < 2 ^ 31 \<and> to_float (nd_std ops flux) = Fin 0 \<and> 2 \<le> n \<and> n < 2 ^ 31"
  then show "test_statistic_array_c ops flux n = Inl ZeroDivisionError"
    using test_statistic_array_c_zero_sigma by blast
next
  assume "length flux < 2 ^ 31 \<and> 0 \<le> n \<and> n \<le> 1"
  then show "test_statistic_array_c ops flux n =
        Inr (replicate (nat n) (replicate (length flux) (Fin 0)))"
    using test_statistic_array_c_no_pass by blast
next
  assume "length flux < 2 ^ 31 \<and> to_float (nd_std ops flux) \<noteq> Fin 0 \<and> 0 \<le> n \<and>
    n \<le> int (length flux)"
  then show "\<exists>T. test_statistic_array_c ops flux n = Inr T"
    using test_statistic_array_c_returns by blast
qed

lemma mean_zero: "nd_mean correctly_rounded [1, - 1] = Fin 0"
  by (simp add: correctly_rounded_def np_mean_def c_double_0)

lemma np_std_55: "np_std [5, 5] = Fin 0"
  by (simp add: np_std_def Let_def)

lemma sigma_55: "to_float (nd_std correctly_rounded [5, 5]) = Fin 0"
  by (simp add: correctly_rounded_def np_std_55 c_double_0 c_float_0)

theorem degenerate_flux_behaviour_witness:
  "nd_mean correctly_rounded [1, - 1] = Fin 0 \<and>
   \<not> is_finite (normalise_flux correctly_rounded [1, - 1] ! 0) \<and>
   to_float (nd_std correctly_rounded [5, 5]) = Fin 0 \<and>
   test_statistic_array_c correctly_rounded [5, 5] 2 = Inl ZeroDivisionError \<and>
   test_statistic_array_c correctly_rounded [5, 5] 1 = Inr [[Fin 0, Fin 0]] \<and>
   to_float (nd_std correctly_rounded [1, 3, 1, 3]) = Fin 1 \<and>
   (\<exists>T. test_statistic_array_c correctly_rounded [1, 3, 1, 3] 2 = Inr T)"
proof -
  have "normalise_flux correctly_rounded [1, - 1] ! 0
          \<in> set (normalise_flux correctly_rounded [1, - 1])"
    by (simp add: normalise_flux_def)
  with mean_zero degenerate_flux_behaviour [of correctly_rounded "[1, - 1]" 0]
  have a: "\<not> is_finite (normalise_flux correctly_rounded [1, - 1] ! 0)" by blast
  have b: "test_statistic_array_c correctly_rounded [5, 5] 2 = Inl ZeroDivisionError"
    using degenerate_flux_behaviour [of correctly_rounded "[5, 5]" 2] sigma_55 by simp
  have c: "test_statistic_array_c correctly_rounded [5, 5] 1 = Inr [[Fin 0, Fin 0]]"
    using degenerate_flux_behaviour [of correctly_rounded "[5, 5]" 1] by simp
  have d: "\<exists>T. test_statistic_array_c correctly_rounded [1, 3, 1, 3] 2 = Inr T"
    using degenerate_flux_behaviour [of correctly_rounded "[1, 3, 1, 3]" 2] sigma_1313 by simp
  from mean_zero a sigma_55 b c sigma_1313 d show ?thesis by blast
qed

text \<open>
  The claim is that both functions signal an explicit degenerate-numeric error. The flux
  array \<open>[1, -1]\<close> has mean zero, and \<open>normalise_flux\<close> returns \<open>[inf, -inf]\<close> for it without
  an error. The constant flux array \<open>[5, 5]\<close> has standard deviation zero;
  \<open>test_statistic_array\<close> returns the zero matrix for it without an error when
  \<open>max_half_width = 1\<close>, and when \<open>max_half_width = 2\<close> it does divide by zero: the error is
  the \<open>ZeroDivisionError\<close> of that division.
\<close>

theorem degenerate_flux_no_explicit_error_counterexample:
  "normalise_flux correctly_rounded [1, - 1] = [PInf, NInf] \<and>
   np_std [5, 5] = Fin 0 \<and>
   test_statistic_array_c correctly_rounded [5, 5] 1 = Inr [[Fin 0, Fin 0]] \<and>
   test_statistic_array_c correctly_rounded [5, 5] 2 = Inl ZeroDivisionError"
proof -
  have a: "normalise_flux correctly_rounded [1, - 1] = [PInf, NInf]"
    by (simp add: normalise_flux_def mean_zero)
  have len: "length [5, 5 :: real] < 2 ^ 31" by simp
  have c: "test_statistic_array_c correctly_rounded [5, 5] 1 = Inr [[Fin 0, Fin 0]]"
    using test_statistic_array_c_no_pass [OF _ _ len, of 1 correctly_rounded] by simp
  have d: "test_statistic_array_c correctly_rounded [5, 5] 2 = Inl ZeroDivisionError"
    using test_statistic_array_c_zero_sigma [OF sigma_55 _ _ len, of 2] by simp
  from a np_std_55 c d show ?thesis by blast
qed

subsection \<open>The periodogram denoiser\<close>

lemma mask_select_Cons:
  "length rs = length xs \<Longrightarrow>
   map fst (filter (\<lambda>(v, r). r = 1) (zip (x # xs) (r # rs))) =
     (if r = 1 then [x] else []) @ map fst (filter (\<lambda>(v, r). r = (1::int)) (zip xs rs))"
  by simp

lemma real_samples_Cons:
  "real_samples (x # xs) (r # rs) = (if r = 1 then [x] else []) @ real_samples xs rs"
proof -
  have "{j. Suc j \<in> {i. i < length (r # rs) \<and> (r # rs) ! i = 1}} = {i. i < length rs \<and> rs ! i = 1}"
    by auto
  then show ?thesis
    by (simp add: real_samples_def nths_Cons)
qed

lemma mask_select_real_samples:
  "length rf = length a \<Longrightarrow> mask_select a rf = Inr (real_samples a rf)"
proof -
  assume l: "length rf = length a"
  have "length a = length rf \<Longrightarrow>
        map fst (filter (\<lambda>(v, r). r = 1) (zip a rf)) = real_samples a rf"
  proof (induction a rf rule: list_induct2)
    case Nil
    then show ?case by (simp add: real_samples_def)
  next
    case (Cons x xs r rs)
    then show ?case by (simp add: real_samples_Cons)
  qed
  with l show ?thesis by (simp add: mask_select_def)
qed

lemma np_isub_length: "np_isub a p = Some b \<Longrightarrow> length b = length a"
  by (auto simp: np_isub_def split: if_splits)

lemma fit_and_subtract_iff:
  "fit_and_subtract M cfg time (real_samples time rf) (real_samples flux rf) ms flux = Some flux' \<longleftrightarrow>
     iteration_subtracts M cfg time rf ms flux flux'"
  unfolding iteration_subtracts_def
  by (auto simp: fit_and_subtract_def split: option.splits)

lemma iteration_subtracts_length:
  "iteration_subtracts M cfg time rf ms flux flux' \<Longrightarrow> length flux' = length flux"
  unfolding iteration_subtracts_def using np_isub_length by blast

lemma denoising_run_stop:
  assumes "k = 0 \<or> (\<forall>flux'. \<not> iteration_subtracts M cfg time rf ms flux flux')"
  shows "denoising_run M cfg time rf ms k flux [flux]"
  using assms unfolding denoising_run_def by auto

lemma denoising_run_step:
  assumes step: "iteration_subtracts M cfg time rf ms flux flux1"
    and run: "denoising_run M cfg time rf ms k flux1 fs"
  shows "denoising_run M cfg time rf ms (Suc k) flux (flux # fs)"
proof -
  from run have ne: "fs \<noteq> []" and len: "length fs \<le> k + 1" and hd: "hd fs = flux1"
    and chain: "\<And>j. Suc j < length fs \<Longrightarrow> iteration_subtracts M cfg time rf ms (fs ! j) (fs ! Suc j)"
    and stop: "length fs \<le> k \<Longrightarrow> (\<forall>flux'. \<not> iteration_subtracts M cfg time rf ms (last fs) flux')"
    unfolding denoising_run_def by blast+
  have c: "iteration_subtracts M cfg time rf ms ((flux # fs) ! j) ((flux # fs) ! Suc j)"
    if j: "Suc j < length (flux # fs)" for j
  proof (cases j)
    case 0
    have "fs ! 0 = flux1" using ne hd by (simp add: hd_conv_nth)
    with step 0 show ?thesis by simp
  next
    case (Suc j')
    with j have "Suc j' < length fs" by simp
    from chain [OF this] Suc show ?thesis by simp
  qed
  have s: "\<forall>flux'. \<not> iteration_subtracts M cfg time rf ms (last (flux # fs)) flux'"
    if "length (flux # fs) \<le> Suc k"
  proof -
    from that have "length fs \<le> k" by simp
    from stop [OF this] ne show ?thesis by simp
  qed
  show ?thesis
    unfolding denoising_run_def
  proof (intro conjI allI impI)
    show "flux # fs \<noteq> []" by simp
    show "length (flux # fs) \<le> Suc k + 1" using len by simp
    show "hd (flux # fs) = flux" by simp
    show "iteration_subtracts M cfg time rf ms ((flux # fs) ! j) ((flux # fs) ! Suc j)"
      if "Suc j < length (flux # fs)" for j using that by (rule c)
    show "\<not> iteration_subtracts M cfg time rf ms (last (flux # fs)) flux'"
      if "length (flux # fs) \<le> Suc k" for flux' using s [OF that] by blast
  qed
qed

lemma fit_loop_run:
  assumes "length flux = length rf"
  shows "\<exists>fs. denoising_run M cfg time rf ms k flux fs \<and>
           fit_loop M cfg time (real_samples time rf) rf ms k (flux, calls) =
             (last fs, calls @ map (\<lambda>f. (real_samples time rf, real_samples f rf)) (take k fs))"
  using assms
proof (induction k arbitrary: flux calls)
  case 0
  have "denoising_run M cfg time rf ms 0 flux [flux]" by (simp add: denoising_run_stop)
  moreover have "fit_loop M cfg time (real_samples time rf) rf ms 0 (flux, calls) =
             (last [flux], calls @ map (\<lambda>f. (real_samples time rf, real_samples f rf)) (take 0 [flux]))"
    by simp
  ultimately show ?case by blast
next
  case (Suc k)
  have mask: "mask_select flux rf = Inr (real_samples flux rf)"
    using Suc.prems by (simp add: mask_select_real_samples)
  show ?case
  proof (cases "fit_and_subtract M cfg time (real_samples time rf) (real_samples flux rf) ms flux")
    case None
    then have "\<forall>flux'. \<not> iteration_subtracts M cfg time rf ms flux flux'"
      by (simp add: fit_and_subtract_iff [symmetric])
    then have "denoising_run M cfg time rf ms (Suc k) flux [flux]"
      by (simp add: denoising_run_stop)
    moreover have "fit_loop M cfg time (real_samples time rf) rf ms (Suc k) (flux, calls) =
        (last [flux], calls @ map (\<lambda>f. (real_samples time rf, real_samples f rf)) (take (Suc k) [flux]))"
      using mask None by simp
    ultimately show ?thesis by blast
  next
    case (Some flux1)
    then have step: "iteration_subtracts M cfg time rf ms flux flux1"
      by (simp add: fit_and_subtract_iff)
    then have "length flux1 = length rf"
      using iteration_subtracts_length Suc.prems by fastforce
    from Suc.IH [OF this, of "calls @ [(real_samples time rf, real_samples flux rf)]"]
    obtain fs where run: "denoising_run M cfg time rf ms k flux1 fs" and
      loop: "fit_loop M cfg time (real_samples time rf) rf ms k
               (flux1, calls @ [(real_samples time rf, real_samples flux rf)]) =
             (last fs, (calls @ [(real_samples time rf, real_samples flux rf)]) @
                map (\<lambda>f. (real_samples time rf, real_samples f rf)) (take k fs))"
      by blast
    have ne: "fs \<noteq> []" using run unfolding denoising_run_def by blast
    have "denoising_run M cfg time rf ms (Suc k) flux (flux # fs)"
      using step run by (rule denoising_run_step)
    moreover have "fit_loop M cfg time (real_samples time rf) rf ms (Suc k) (flux, calls) =
        (last (flux # fs),
         calls @ map (\<lambda>f. (real_samples time rf, real_samples f rf)) (take (Suc k) (flux # fs)))"
      using mask Some loop ne by simp
    ultimately show ?thesis by blast
  qed
qed

lemma lombscargle_filter_Inl:
  "lombscargle_filter M time flux rf ms = Inl e \<Longrightarrow>
   e = IndexError \<and> (length rf \<noteq> length time \<or> time = [])"
  by (auto simp: lombscargle_filter_def mask_select_def Let_def split: if_splits)

lemma lombscargle_filter_flux_mismatch:
  assumes "length rf = length time" and "time \<noteq> []" and "length flux \<noteq> length rf"
  shows "lombscargle_filter M time flux rf ms = Inr (flux, [])"
proof -
  have m: "mask_select flux rf = Inl IndexError"
    using assms(3) by (simp add: mask_select_def)
  have "fit_loop M cfg time tr rf ms (Suc k) (flux, []) = (flux, [])" for cfg tr k
    by (simp add: m)
  then have "fit_loop M cfg time tr rf ms 30 (flux, []) = (flux, [])" for cfg tr
    by (simp add: eval_nat_numeral)
  then show ?thesis
    using assms(1,2)
    by (simp add: lombscargle_filter_def mask_select_real_samples Let_def del: np_div.simps)
qed

lemma lombscargle_filter_run:
  assumes "length rf = length time" and "time \<noteq> []" and "length flux = length rf"
  shows "\<exists>fs. denoising_run M
             (np_div (Fin (real (length time))) (Fin (2 * (last time - hd time))),
              last time - hd time) time rf ms 30 flux fs \<and>
           lombscargle_filter M time flux rf ms =
             Inr (last fs, map (\<lambda>f. (real_samples time rf, real_samples f rf)) (take 30 fs))"
proof -
  let ?cfg = "(np_div (Fin (real (length time))) (Fin (2 * (last time - hd time))),
               last time - hd time)"
  from fit_loop_run [OF assms(3), of M ?cfg time ms 30 "[]"]
  obtain fs where run: "denoising_run M ?cfg time rf ms 30 flux fs" and
    loop: "fit_loop M ?cfg time (real_samples time rf) rf ms 30 (flux, []) =
             (last fs, [] @ map (\<lambda>f. (real_samples time rf, real_samples f rf)) (take 30 fs))"
    by blast
  have "lombscargle_filter M time flux rf ms =
          Inr (last fs, map (\<lambda>f. (real_samples time rf, real_samples f rf)) (take 30 fs))"
    using assms(1,2) loop
    by (simp add: lombscargle_filter_def mask_select_real_samples Let_def del: np_div.simps)
  with run show ?thesis by blast
qed

text \<open>
  C2: \<open>lombscargle_filter\<close> raises only from the statements before \<^verbatim>\<open>try\<close> (a flag array
  whose length is not that of \<open>time\<close>, or an empty \<open>time\<close>), never from the loop. A flux
  array whose length is not that of the flag array is left as it is, without a call of
  \<^verbatim>\<open>model.fit\<close>. Otherwise the run is a list \<open>fs\<close> of flux arrays, from the flux array given to
  the one left at the end, with at most 30 steps: at each step the model is fitted to the
  real samples of \<open>time\<close> and of the current flux array, its score at its best period is not
  below \<open>min_score\<close>, and the next flux array is the current one minus the prediction at all of
  \<open>time\<close>; a run of fewer than 30 steps ends at a flux array on which the iteration does not
  subtract (the fit, the score or the prediction raises, or the score is below
  \<open>min_score\<close>), and that array, with all the subtractions made before, is what is left. The
  calls of \<^verbatim>\<open>model.fit\<close> are those on the real samples of the first 30 arrays of the run.
\<close>

theorem lombscargle_filter_best_effort:
  "(\<forall>e. lombscargle_filter M time flux rf ms = Inl e \<longrightarrow>
        e = IndexError \<and> (length rf \<noteq> length time \<or> time = [])) \<and>
   (length rf = length time \<and> time \<noteq> [] \<and> length flux \<noteq> length rf \<longrightarrow>
        lombscargle_filter M time flux rf ms = Inr (flux, [])) \<and>
   (length rf = length time \<and> time \<noteq> [] \<and> length flux = length rf \<longrightarrow>
      (let period_range =
             (np_div (Fin (real (length time))) (Fin (2 * (last time - hd time))),
              last time - hd time)
       in \<exists>fs. fs \<noteq> [] \<and> length fs \<le> 31 \<and> hd fs = flux \<and>
            (\<forall>j. Suc j < length fs \<longrightarrow>
               iteration_subtracts M period_range time rf ms (fs ! j) (fs ! Suc j)) \<and>
            (length fs \<le> 30 \<longrightarrow>
               (\<forall>flux'. \<not> iteration_subtracts M period_range time rf ms (last fs) flux')) \<and>
            lombscargle_filter M time flux rf ms =
              Inr (last fs,
                   map (\<lambda>f. (real_samples time rf, real_samples f rf)) (take 30 fs))))"
proof (intro conjI)
  show "\<forall>e. lombscargle_filter M time flux rf ms = Inl e \<longrightarrow>
        e = IndexError \<and> (length rf \<noteq> length time \<or> time = [])"
    using lombscargle_filter_Inl by blast
next
  show "length rf = length time \<and> time \<noteq> [] \<and> length flux \<noteq> length rf \<longrightarrow>
        lombscargle_filter M time flux rf ms = Inr (flux, [])"
    using lombscargle_filter_flux_mismatch by blast
next
  show "length rf = length time \<and> time \<noteq> [] \<and> length flux = length rf \<longrightarrow>
      (let period_range =
             (np_div (Fin (real (length time))) (Fin (2 * (last time - hd time))),
              last time - hd time)
       in \<exists>fs. fs \<noteq> [] \<and> length fs \<le> 31 \<and> hd fs = flux \<and>
            (\<forall>j. Suc j < length fs \<longrightarrow>
               iteration_subtracts M period_range time rf ms (fs ! j) (fs ! Suc j)) \<and>
            (length fs \<le> 30 \<longrightarrow>
               (\<forall>flux'. \<not> iteration_subtracts M period_range time rf ms (last fs) flux')) \<and>
            lombscargle_filter M time flux rf ms =
              Inr (last fs,
                   map (\<lambda>f. (real_samples time rf, real_samples f rf)) (take 30 fs)))"
  proof
    assume h: "length rf = length time \<and> time \<noteq> [] \<and> length flux = length rf"
    then have 1: "length rf = length time" and 2: "time \<noteq> []" and 3: "length flux = length rf"
      by simp_all
    from lombscargle_filter_run [OF 1 2 3, of M ms]
    show "let period_range =
             (np_div (Fin (real (length time))) (Fin (2 * (last time - hd time))),
              last time - hd time)
       in \<exists>fs. fs \<noteq> [] \<and> length fs \<le> 31 \<and> hd fs = flux \<and>
            (\<forall>j. Suc j < length fs \<longrightarrow>
               iteration_subtracts M period_range time rf ms (fs ! j) (fs ! Suc j)) \<and>
            (length fs \<le> 30 \<longrightarrow>
               (\<forall>flux'. \<not> iteration_subtracts M period_range time rf ms (last fs) flux')) \<and>
            lombscargle_filter M time flux rf ms =
              Inr (last fs,
                   map (\<lambda>f. (real_samples time rf, real_samples f rf)) (take 30 fs))"
      unfolding denoising_run_def Let_def by simp
  qed
qed

lemma real_samples_Nil: "real_samples [] [] = []"
  by (simp add: real_samples_def)

lemma constant_model_run:
  "lombscargle_filter constant_model [0, 1, 2] [3, 7, 3] [1, 0, 1] 1 =
     Inr ([0, 4, 0], [([0, 2], [3, 3]), ([0, 2], [0, 0])])"
  by (simp add: lombscargle_filter_def mask_select_def fit_and_subtract_def np_isub_def
      constant_model_def eval_nat_numeral)

theorem lombscargle_filter_best_effort_witness:
  "length [1, 0, 1 :: int] = length [0, 1, 2 :: real] \<and> [0, 1, 2 :: real] \<noteq> [] \<and>
   length [3, 7, 3 :: real] = length [1, 0, 1 :: int] \<and>
   real_samples [0, 1, 2] [1, 0, 1] = [0, 2] \<and> real_samples [3, 7, 3] [1, 0, 1] = [3, 3] \<and>
   iteration_subtracts constant_model (Fin (3 / 4), 2) [0, 1, 2] [1, 0, 1] 1 [3, 7, 3] [0, 4, 0] \<and>
   (\<exists>fs. fs \<noteq> [] \<and> length fs \<le> 31 \<and> hd fs = [3, 7, 3] \<and> last fs = [0, 4, 0] \<and>
      lombscargle_filter constant_model [0, 1, 2] [3, 7, 3] [1, 0, 1] 1 =
        Inr (last fs, map (\<lambda>f. ([0, 2], real_samples f [1, 0, 1])) (take 30 fs)))"
proof -
  have rs: "real_samples [0, 1, 2] [1, 0, 1] = [0, 2]" "real_samples [3, 7, 3] [1, 0, 1] = [3, 3]"
    by (simp_all add: real_samples_Cons real_samples_Nil)
  have it: "iteration_subtracts constant_model (Fin (3 / 4), 2) [0, 1, 2] [1, 0, 1] 1
              [3, 7, 3] [0, 4, 0]"
    unfolding iteration_subtracts_def rs
    by (simp add: constant_model_def np_isub_def)
  from lombscargle_filter_best_effort
         [of constant_model "[0, 1, 2]" "[3, 7, 3]" "[1, 0, 1]" 1]
  obtain fs where fs: "fs \<noteq> []" "length fs \<le> 31" "hd fs = [3, 7, 3]"
    "lombscargle_filter constant_model [0, 1, 2] [3, 7, 3] [1, 0, 1] 1 =
       Inr (last fs, map (\<lambda>f. (real_samples [0, 1, 2] [1, 0, 1], real_samples f [1, 0, 1]))
                       (take 30 fs))"
    unfolding Let_def by auto
  from fs(4) have "last fs = [0, 4, 0]" unfolding constant_model_run by simp
  with fs rs it show ?thesis by auto
qed

subsection \<open>The Fourier denoiser\<close>

lemma cis_unit_root_eq_1:
  fixes d :: int and N :: nat
  assumes N: "0 < N" and d: "\<bar>d\<bar> < int N" and one: "cis (2 * pi * real_of_int d / real N) = 1"
  shows "d = 0"
proof -
  from one have "cos (2 * pi * real_of_int d / real N) = 1"
    by (simp add: complex_eq_iff)
  then obtain n :: int where n: "2 * pi * real_of_int d / real N = real_of_int n * 2 * pi"
    unfolding cos_one_2pi_int by blast
  then have "(2 * pi) * (real_of_int d / real N) = (2 * pi) * real_of_int n"
    by (simp add: mult_ac)
  then have "real_of_int d / real N = real_of_int n"
    unfolding mult_cancel_left by simp
  then have "real_of_int d = real_of_int (n * int N)" using N by (simp add: field_simps)
  then have dn: "d = n * int N" using of_int_eq_iff by blast
  show ?thesis
  proof (rule ccontr)
    assume "d \<noteq> 0"
    with dn have "n \<noteq> 0" by auto
    then have "1 \<le> \<bar>n\<bar>" by simp
    then have "int N \<le> \<bar>n\<bar> * int N" using N by (simp add: mult_le_cancel_right1)
    also have "\<dots> = \<bar>d\<bar>" by (simp add: dn abs_mult)
    finally show False using d by simp
  qed
qed

lemma sum_cos_full_period:
  fixes d :: int and N :: nat
  assumes N: "0 < N" and d: "\<bar>d\<bar> < int N"
  shows "(\<Sum>k = 0..<N. cos (2 * pi * real_of_int d * real k / real N)) =
           (if d = 0 then real N else 0)"
proof (cases "d = 0")
  case True
  then show ?thesis by simp
next
  case False
  let ?z = "cis (2 * pi * real_of_int d / real N)"
  have z1: "?z \<noteq> 1" using cis_unit_root_eq_1 [OF N d] False by blast
  have zN: "?z ^ N = 1"
    using N by (simp add: DeMoivre)
  have "(\<Sum>k<N. ?z ^ k) = (?z ^ N - 1) / (?z - 1)"
    using z1 by (rule geometric_sum)
  then have s0: "(\<Sum>k<N. ?z ^ k) = 0" by (simp add: zN)
  have "(\<Sum>k = 0..<N. cos (2 * pi * real_of_int d * real k / real N)) = Re (\<Sum>k<N. ?z ^ k)"
    by (simp add: DeMoivre atLeast0LessThan mult_ac)
  with s0 False show ?thesis by simp
qed

lemma sum_reflect:
  fixes f :: "nat \<Rightarrow> real"
  assumes "a + b = N" and "1 \<le> a"
  shows "(\<Sum>k = b..<N. f k) = (\<Sum>k = 1..<Suc a. f (N - k))"
  using assms
  by (intro sum.reindex_bij_witness [where i = "\<lambda>k. N - k" and j = "\<lambda>k. N - k"]) auto

lemma sum_symmetric_halves:
  fixes f :: "nat \<Rightarrow> real"
  assumes N: "0 < N" and sym: "\<And>k. 1 \<le> k \<Longrightarrow> k < N \<Longrightarrow> f (N - k) = f k"
  shows "(\<Sum>k = 0..<N. f k) =
           f 0 + 2 * (\<Sum>k = 1..<(N + 1) div 2. f k) + (if even N then f (N div 2) else 0)"
proof -
  let ?h = "(N + 1) div 2"
  have split0: "(\<Sum>k = 0..<N. f k) = f 0 + (\<Sum>k = 1..<N. f k)"
    using N by (simp add: sum.atLeast_Suc_lessThan)
  show ?thesis
  proof (cases "even N")
    case True
    then obtain m where m: "N = 2 * m" by (elim evenE)
    with N have m0: "0 < m" by simp
    have h: "?h = m" by (simp add: m)
    have "(\<Sum>k = 1..<N. f k) = (\<Sum>k = 1..<m. f k) + (\<Sum>k = m..<N. f k)"
      by (rule sum.atLeastLessThan_concat [symmetric]) (use m0 in \<open>simp_all add: m\<close>)
    also have "(\<Sum>k = m..<N. f k) = f m + (\<Sum>k = Suc m..<N. f k)"
      using m0 by (simp add: m sum.atLeast_Suc_lessThan)
    also have "(\<Sum>k = Suc m..<N. f k) = (\<Sum>k = 1..<m. f (N - k))"
    proof (cases "m = 1")
      case True
      then show ?thesis by (simp add: m)
    next
      case False
      with m0 have "1 \<le> m - 1" "(m - 1) + Suc m = N" by (simp_all add: m)
      from sum_reflect [OF this(2) this(1), of f] m0 show ?thesis by simp
    qed
    also have "\<dots> = (\<Sum>k = 1..<m. f k)"
    proof (rule sum.cong)
      fix k assume "k \<in> {1..<m}"
      then have "1 \<le> k" "k < N" by (auto simp: m)
      then show "f (N - k) = f k" by (rule sym)
    qed simp
    finally have "(\<Sum>k = 1..<N. f k) = (\<Sum>k = 1..<m. f k) + (f m + (\<Sum>k = 1..<m. f k))" .
    then show ?thesis unfolding split0 h using True by (simp add: m)
  next
    case False
    then obtain m where m: "N = 2 * m + 1" by (elim oddE)
    have h: "?h = m + 1" by (simp add: m)
    have "(\<Sum>k = 1..<N. f k) = (\<Sum>k = 1..<m + 1. f k) + (\<Sum>k = m + 1..<N. f k)"
      by (rule sum.atLeastLessThan_concat [symmetric]) (simp_all add: m)
    also have "(\<Sum>k = m + 1..<N. f k) = (\<Sum>k = 1..<m + 1. f (N - k))"
    proof (cases "m = 0")
      case True
      then show ?thesis by (simp add: m)
    next
      case False
      then have "1 \<le> m" "m + (m + 1) = N" by (simp_all add: m)
      from sum_reflect [OF this(2) this(1), of f] show ?thesis by simp
    qed
    also have "\<dots> = (\<Sum>k = 1..<m + 1. f k)"
    proof (rule sum.cong)
      fix k assume "k \<in> {1..<m + 1}"
      then have "1 \<le> k" "k < N" by (auto simp: m)
      then show "f (N - k) = f k" by (rule sym)
    qed simp
    finally have "(\<Sum>k = 1..<N. f k) = (\<Sum>k = 1..<m + 1. f k) + (\<Sum>k = 1..<m + 1. f k)" .
    then show ?thesis unfolding split0 h using False by simp
  qed
qed

lemma cos_reflect:
  fixes d :: int
  assumes "k < N"
  shows "cos (2 * pi * real_of_int d * real (N - k) / real N) =
         cos (2 * pi * real_of_int d * real k / real N)"
proof -
  have N: "real N \<noteq> 0" using assms by simp
  have "2 * pi * real_of_int d * real (N - k) / real N =
          (2 * pi) * real_of_int d - 2 * pi * real_of_int d * real k / real N"
    using assms N by (simp add: of_nat_diff field_simps)
  then show ?thesis by (simp only: cos_diff cos_int_2pin sin_int_2pin mult_1 mult_zero_left add_0_right)
qed

lemma dirichlet_kernel:
  fixes d :: int and N :: nat
  assumes N: "0 < N" and d: "\<bar>d\<bar> < int N"
  shows "1 + 2 * (\<Sum>k = 1..<(N + 1) div 2. cos (2 * pi * real_of_int d * real k / real N))
           + (if even N then cos (2 * pi * real_of_int d * real (N div 2) / real N) else 0) =
         (if d = 0 then real N else 0)"
proof -
  let ?f = "\<lambda>k. cos (2 * pi * real_of_int d * real k / real N)"
  have "(\<Sum>k = 0..<N. ?f k) =
           ?f 0 + 2 * (\<Sum>k = 1..<(N + 1) div 2. ?f k) + (if even N then ?f (N div 2) else 0)"
    by (rule sum_symmetric_halves [OF N]) (rule cos_reflect)
  then show ?thesis using sum_cos_full_period [OF N d] by simp
qed

lemma Re_dft_term:
  fixes x :: "real list"
  shows "Re ((\<Sum>l = 0..<N. of_real (x ! l) * cis (- (2 * pi * real l * real k / real N)))
             * cis (2 * pi * real j * real k / real N)) =
         (\<Sum>l = 0..<N. x ! l * cos (2 * pi * real_of_int (int j - int l) * real k / real N))"
proof -
  have "Re (of_real (x ! l) * cis (- (2 * pi * real l * real k / real N))
             * cis (2 * pi * real j * real k / real N)) =
        x ! l * cos (2 * pi * real_of_int (int j - int l) * real k / real N)" for l
  proof -
    have "- (2 * pi * real l * real k / real N) + 2 * pi * real j * real k / real N =
          2 * pi * real_of_int (int j - int l) * real k / real N"
      by (simp add: algebra_simps diff_divide_distrib)
    then show ?thesis
      by (simp only: mult.assoc cis_mult) simp
  qed
  then show ?thesis by (simp add: sum_distrib_right)
qed

lemma rfft_nonempty:
  "x \<noteq> [] \<Longrightarrow>
   rfft x = Inr (map (\<lambda>k. \<Sum>l = 0..<length x. of_real (x ! l) * cis (- (2 * pi * real l * real k / real (length x))))
                     [0..<length x div 2 + 1])"
  by (simp add: rfft_def Let_def)

lemma irfft_rfft_entry:
  fixes x :: "real list"
  assumes N: "0 < N" and j: "j < N"
  defines "g \<equiv> \<lambda>k. \<Sum>l = 0..<N. of_real (x ! l) * cis (- (2 * pi * real l * real k / real N))"
  shows "(Re (g 0)
           + (\<Sum>k = 1..<(N + 1) div 2. 2 * Re (g k * cis (2 * pi * real j * real k / real N)))
           + (if even N then Re (g (N div 2)) * (- 1) ^ j else 0)) / real N = x ! j"
proof -
  let ?c = "\<lambda>l k. cos (2 * pi * real_of_int (int j - int l) * real k / real N)"
  have R: "Re (g k * cis (2 * pi * real j * real k / real N)) = (\<Sum>l = 0..<N. x ! l * ?c l k)" for k
    unfolding g_def by (rule Re_dft_term)
  have R0: "Re (g 0) = (\<Sum>l = 0..<N. x ! l)"
    using R [of 0] by simp
  have Rn: "Re (g (N div 2)) * (- 1) ^ j = (\<Sum>l = 0..<N. x ! l * ?c l (N div 2))" if ev: "even N"
  proof -
    from ev obtain m where m: "N = 2 * m" by (elim evenE)
    with N have m0: "m \<noteq> 0" by simp
    have "2 * pi * real j * real (N div 2) / real N = real j * pi"
      using m0 by (simp add: m)
    then have c: "cis (2 * pi * real j * real (N div 2) / real N) = of_real ((- 1) ^ j)"
      by (simp add: complex_eq_iff)
    have "Re (g (N div 2)) * (- 1) ^ j = Re (g (N div 2) * cis (2 * pi * real j * real (N div 2) / real N))"
      unfolding c by simp
    then show ?thesis unfolding R .
  qed
  have K: "1 + 2 * (\<Sum>k = 1..<(N + 1) div 2. ?c l k) + (if even N then ?c l (N div 2) else 0) =
           (if l = j then real N else 0)" if "l < N" for l
  proof -
    have "\<bar>int j - int l\<bar> < int N" using j that by linarith
    from dirichlet_kernel [OF N this] show ?thesis by auto
  qed
  have "Re (g 0)
           + (\<Sum>k = 1..<(N + 1) div 2. 2 * Re (g k * cis (2 * pi * real j * real k / real N)))
           + (if even N then Re (g (N div 2)) * (- 1) ^ j else 0) =
        (\<Sum>l = 0..<N. x ! l)
           + (\<Sum>k = 1..<(N + 1) div 2. 2 * (\<Sum>l = 0..<N. x ! l * ?c l k))
           + (if even N then (\<Sum>l = 0..<N. x ! l * ?c l (N div 2)) else 0)"
  proof (cases "even N")
    case True
    with Rn show ?thesis by (simp only: R R0 if_True)
  next
    case False
    then show ?thesis by (simp only: R R0 if_False)
  qed
  also have "(\<Sum>k = 1..<(N + 1) div 2. 2 * (\<Sum>l = 0..<N. x ! l * ?c l k)) =
             (\<Sum>l = 0..<N. x ! l * (2 * (\<Sum>k = 1..<(N + 1) div 2. ?c l k)))"
  proof -
    have "(\<Sum>k = 1..<(N + 1) div 2. 2 * (\<Sum>l = 0..<N. x ! l * ?c l k)) =
          (\<Sum>k = 1..<(N + 1) div 2. \<Sum>l = 0..<N. x ! l * (2 * ?c l k))"
      by (simp add: sum_distrib_left mult_ac)
    also have "\<dots> = (\<Sum>l = 0..<N. \<Sum>k = 1..<(N + 1) div 2. x ! l * (2 * ?c l k))"
      by (rule sum.swap)
    also have "\<dots> = (\<Sum>l = 0..<N. x ! l * (2 * (\<Sum>k = 1..<(N + 1) div 2. ?c l k)))"
      by (simp add: sum_distrib_left)
    finally show ?thesis .
  qed
  also have "(\<Sum>l = 0..<N. x ! l)
           + (\<Sum>l = 0..<N. x ! l * (2 * (\<Sum>k = 1..<(N + 1) div 2. ?c l k)))
           + (if even N then (\<Sum>l = 0..<N. x ! l * ?c l (N div 2)) else 0) =
        (\<Sum>l = 0..<N. x ! l * (1 + 2 * (\<Sum>k = 1..<(N + 1) div 2. ?c l k)
                                  + (if even N then ?c l (N div 2) else 0)))"
    by (simp add: sum.distrib [symmetric] algebra_simps)
  also have "\<dots> = (\<Sum>l = 0..<N. if l = j then x ! j * real N else 0)"
  proof (rule sum.cong [OF refl])
    fix l assume "l \<in> {0..<N}"
    then have "l < N" by simp
    from K [OF this] show "x ! l * (1 + 2 * (\<Sum>k = 1..<(N + 1) div 2. ?c l k)
                                  + (if even N then ?c l (N div 2) else 0)) =
                           (if l = j then x ! j * real N else 0)"
      by simp
  qed
  also have "\<dots> = x ! j * real N"
    using j by (simp add: sum.delta)
  finally show ?thesis using N by simp
qed

lemma irfft_rfft:
  assumes "x \<noteq> []" and "rfft x = Inr A"
  shows "irfft A (length x) = Inr x"
proof -
  let ?N = "length x"
  let ?g = "\<lambda>k. \<Sum>l = 0..<?N. of_real (x ! l) * cis (- (2 * pi * real l * real k / real ?N))"
  have N: "0 < ?N" using assms(1) by simp
  have A: "A = map ?g [0..<?N div 2 + 1]"
    using rfft_nonempty [OF assms(1)] assms(2) by simp
  have b: "bin A k = ?g k" if "k \<le> ?N div 2" for k
    using that by (simp add: bin_def A del: upt_Suc)
  have h: "k \<le> ?N div 2" if "k < (?N + 1) div 2" for k
    using that by linarith
  have e: "(Re (bin A 0)
           + (\<Sum>k = 1..<(?N + 1) div 2. 2 * Re (bin A k * cis (2 * pi * real j * real k / real ?N)))
           + (if even ?N then Re (bin A (?N div 2)) * (- 1) ^ j else 0)) / real ?N = x ! j"
    if j: "j < ?N" for j
  proof -
    have "(\<Sum>k = 1..<(?N + 1) div 2. 2 * Re (bin A k * cis (2 * pi * real j * real k / real ?N))) =
          (\<Sum>k = 1..<(?N + 1) div 2. 2 * Re (?g k * cis (2 * pi * real j * real k / real ?N)))"
      by (rule sum.cong) (simp_all add: b h)
    moreover have "bin A 0 = ?g 0" "bin A (?N div 2) = ?g (?N div 2)"
      by (simp_all only: b le0 order_refl)
    ultimately show ?thesis
      using irfft_rfft_entry [OF N j, of x] by (simp only:)
  qed
  have "map (\<lambda>j. (Re (bin A 0)
           + (\<Sum>k = 1..<(?N + 1) div 2. 2 * Re (bin A k * cis (2 * pi * real j * real k / real ?N)))
           + (if even ?N then Re (bin A (?N div 2)) * (- 1) ^ j else 0)) / real ?N) [0..<?N] =
        map (\<lambda>j. x ! j) [0..<?N]"
  proof (rule map_cong [OF refl])
    fix j assume "j \<in> set [0..<?N]"
    then have "j < ?N" by simp
    then show "(Re (bin A 0)
           + (\<Sum>k = 1..<(?N + 1) div 2. 2 * Re (bin A k * cis (2 * pi * real j * real k / real ?N)))
           + (if even ?N then Re (bin A (?N div 2)) * (- 1) ^ j else 0)) / real ?N = x ! j"
      by (rule e)
  qed
  moreover have "irfft A ?N = Inr (map (\<lambda>j. (Re (bin A 0)
           + (\<Sum>k = 1..<(?N + 1) div 2. 2 * Re (bin A k * cis (2 * pi * real j * real k / real ?N)))
           + (if even ?N then Re (bin A (?N div 2)) * (- 1) ^ j else 0)) / real ?N) [0..<?N])"
    using assms(1) by (simp only: irfft_def length_0_conv if_False)
  ultimately have "irfft A ?N = Inr (map (\<lambda>j. x ! j) [0..<?N])" by simp
  then show ?thesis by (simp add: map_nth)
qed

lemma keep_bins_length: "length (keep_bins A idx B) = length B"
  unfolding keep_bins_def by (induction idx arbitrary: B) simp_all

lemma keep_bins_nth:
  "i < length B \<Longrightarrow> keep_bins A idx B ! i = (if i \<in> set idx then A ! i else B ! i)"
  unfolding keep_bins_def
proof (induction idx arbitrary: B)
  case Nil
  then show ?case by simp
next
  case (Cons a idx)
  from Cons.prems have "i < length (B[a := A ! a])" by simp
  from Cons.IH [OF this] Cons.prems show ?case
    by (auto simp: nth_list_update)
qed

lemma set_np_argsort: "set (np_argsort v) = {0..<length v}"
  by (simp add: np_argsort_def)

lemma slice_to_all: "int (length a) \<le> k \<Longrightarrow> slice_to a k = a"
  by (simp add: slice_to_def)

lemma keep_all_bins:
  assumes "int (length A) \<le> k"
  shows "keep_bins A (slice_to (np_argsort (map uminus (map cmod A))) k) (replicate (length A) 0) = A"
proof (rule nth_equalityI)
  show "length (keep_bins A (slice_to (np_argsort (map uminus (map cmod A))) k)
                  (replicate (length A) 0)) = length A"
    by (simp add: keep_bins_length)
next
  fix i
  assume "i < length (keep_bins A (slice_to (np_argsort (map uminus (map cmod A))) k)
                        (replicate (length A) 0))"
  then have i: "i < length A" by (simp add: keep_bins_length)
  have "length (np_argsort (map uminus (map cmod A))) = length A"
    by (simp add: np_argsort_def)
  with assms have "slice_to (np_argsort (map uminus (map cmod A))) k =
                   np_argsort (map uminus (map cmod A))"
    by (simp add: slice_to_all)
  then show "keep_bins A (slice_to (np_argsort (map uminus (map cmod A))) k)
               (replicate (length A) 0) ! i = A ! i"
    using i by (simp add: keep_bins_nth set_np_argsort)
qed

lemma length_rfft: "rfft x = Inr A \<Longrightarrow> length A = length x div 2 + 1"
  by (auto simp: rfft_def Let_def split: if_splits)

lemma rfft_Inr: "x \<noteq> [] \<Longrightarrow> \<exists>A. rfft x = Inr A"
  by (simp add: rfft_def Let_def)

lemma irfft_Inr: "0 < n \<Longrightarrow> \<exists>y. irfft a n = Inr y \<and> length y = n"
  by (simp add: irfft_def)

lemma irfft_zeros:
  assumes "0 < n"
  shows "irfft (replicate m 0) n = Inr (replicate n 0)"
proof -
  have b: "bin (replicate m 0) k = 0" for k by (simp add: bin_def)
  have "map (\<lambda>j. (0::real)) [0..<n] = replicate n 0"
    by (simp add: map_replicate_const)
  then show ?thesis using assms by (simp add: irfft_def b cong: if_cong)
qed

lemma map2_minus_self: "map2 (-) x x = replicate (length x) (0::real)"
  by (induction x) simp_all

lemma map2_minus_zeros: "map2 (-) x (replicate (length x) (0::real)) = x"
  by (induction x) simp_all

lemma fourier_filter_empty: "fourier_filter [] k = Inl ValueError"
  by (simp add: fourier_filter_def rfft_def)

lemma fourier_filter_returns:
  assumes "flux \<noteq> []"
  shows "\<exists>out. fourier_filter flux k = Inr out \<and> length out = length flux"
proof -
  from rfft_Inr [OF assms] obtain A where A: "rfft flux = Inr A" ..
  let ?B = "keep_bins A (slice_to (np_argsort (map uminus (map cmod A))) k) (replicate (length A) 0)"
  from assms have "0 < length flux" by simp
  from irfft_Inr [OF this] obtain y where y: "irfft ?B (length flux) = Inr y" "length y = length flux"
    by blast
  then show ?thesis by (simp add: fourier_filter_def A Let_def)
qed

lemma fourier_filter_no_bins:
  assumes "flux \<noteq> []"
  shows "fourier_filter flux 0 = Inr flux"
proof -
  from rfft_Inr [OF assms] obtain A where A: "rfft flux = Inr A" ..
  have "keep_bins A (slice_to (np_argsort (map uminus (map cmod A))) 0) (replicate (length A) 0) =
        replicate (length A) 0"
    by (simp add: slice_to_def keep_bins_def)
  then show ?thesis
    using assms by (simp add: fourier_filter_def A Let_def irfft_zeros map2_minus_zeros)
qed

text \<open>
  C8 (amended): \<open>fourier_filter\<close> checks no range of \<open>freq_count\<close>. For every nonempty flux
  array and every integer \<open>k\<close> it raises nothing and returns an array of the length of the
  flux; \<open>k\<close> is only the end of the slice \<^verbatim>\<open>[0:freq_count]\<close> of the ranked bins, and with
  \<open>k = 0\<close> no bin is kept and the flux comes back unchanged. The one error is the
  \<open>ValueError\<close> of the transform of an empty array.
\<close>

theorem fourier_filter_any_count:
  "(flux = [] \<longrightarrow> fourier_filter flux k = Inl ValueError) \<and>
   (flux \<noteq> [] \<longrightarrow> (\<exists>out. fourier_filter flux k = Inr out \<and> length out = length flux)) \<and>
   (flux \<noteq> [] \<longrightarrow> fourier_filter flux 0 = Inr flux)"
  using fourier_filter_empty fourier_filter_returns fourier_filter_no_bins by blast

theorem fourier_filter_any_count_witness:
  "[3, 1 :: real] \<noteq> [] \<and> fourier_filter [] 1 = Inl ValueError \<and>
   (\<exists>out. fourier_filter [3, 1] (- 1) = Inr out \<and> length out = length [3, 1 :: real]) \<and>
   fourier_filter [3, 1] 0 = Inr [3, 1]"
  using fourier_filter_any_count [of "[3, 1]" "- 1"] fourier_filter_any_count [of "[]" 1]
  by simp

lemma rfft_31: "rfft [3, 1] = Inr [4, 2]"
  by (simp add: rfft_def upt_rec sum.atLeast_Suc_lessThan complex_eq_iff)

text \<open>
  For the flux \<open>[3, 1]\<close>, \<open>k = 0\<close> (below 1) and \<open>k = 2\<close> (above \<open>N / 2 = 1\<close>) both return
  an array.
\<close>

theorem fourier_filter_count_range_counterexample:
  "fourier_filter [3, 1] 0 = Inr [3, 1] \<and> fourier_filter [3, 1] 2 = Inr [0, 0]"
  by (simp add: fourier_filter_def rfft_31 np_argsort_def slice_to_def keep_bins_def
      irfft_def bin_def upt_rec)

text \<open>
  C9 (amended): the transform of a real array of length \<open>N\<close> has \<open>N div 2 + 1\<close> bins. For
  every nonempty flux array and every \<open>k \<ge> N div 2 + 1\<close>, all bins are kept, the inverse
  transform gives the flux back and \<open>fourier_filter\<close> returns the zero array (exactly, in
  exact arithmetic).
\<close>

theorem fourier_filter_all_bins_zero:
  assumes "flux \<noteq> []" and "int (length flux div 2) < k"
  shows "fourier_filter flux k = Inr (replicate (length flux) 0)"
proof -
  from rfft_Inr [OF assms(1)] obtain A where A: "rfft flux = Inr A" ..
  have "int (length A) \<le> k" using length_rfft [OF A] assms(2) by simp
  then have "keep_bins A (slice_to (np_argsort (map uminus (map cmod A))) k)
               (replicate (length A) 0) = A"
    by (rule keep_all_bins)
  then show ?thesis
    by (simp add: fourier_filter_def A Let_def irfft_rfft [OF assms(1) A] map2_minus_self)
qed

theorem fourier_filter_all_bins_zero_witness:
  "[3, 1 :: real] \<noteq> [] \<and> int (length [3, 1 :: real] div 2) < 2 \<and>
   fourier_filter [3, 1] 2 = Inr [0, 0]"
  using fourier_filter_all_bins_zero [of "[3, 1]" 2] by simp

text \<open>
  With \<open>k = N / 2\<close> one bin is dropped: for the flux \<open>[3, 1]\<close> the bins are 4 and 2,
  \<open>k = 1\<close> keeps the first, and the result is \<open>[1, -1]\<close>, not zero.
\<close>

theorem fourier_filter_half_count_counterexample:
  "even (length [3, 1 :: real]) \<and>
   fourier_filter [3, 1] (int (length [3, 1 :: real] div 2)) = Inr [1, - 1]"
  by (simp add: fourier_filter_def rfft_31 np_argsort_def slice_to_def keep_bins_def
      irfft_def bin_def upt_rec)

end
